theory Spec2Isabelle
  imports Complex_Main
begin

section \<open>Python strings and exceptions\<close>

text \<open>
  Strings are lists of characters. The model is exact on ASCII text; the Unicode-only
  behaviour of \<^verbatim>\<open>str.strip\<close>, \<^verbatim>\<open>str.lower\<close>, \<^verbatim>\<open>str.splitlines\<close> and \<^verbatim>\<open>int\<close>
  (non-ASCII white space, case pairs and digits) is outside it. Time stamps, which are
  floats in the source, are real numbers here.
\<close>

datatype py_error =
    KeyError string
  | NameError
  | RuntimeError
  | ValueError
  | TypeError
  | IndexError
  | FormatError
  | ReError
  | Unsupported

definition ESC :: char where
  "ESC = CHR 0x1B"

definition NL :: char where
  "NL = CHR 0x0A"

definition BSLASH :: char where
  "BSLASH = CHR 0x5C"

definition py_isspace :: "char \<Rightarrow> bool" where
  "py_isspace c = (let n = (of_char c :: nat) in (9 \<le> n \<and> n \<le> 13) \<or> (28 \<le> n \<and> n \<le> 32))"

definition strip :: "string \<Rightarrow> string" where
  "strip s = rev (dropWhile py_isspace (rev (dropWhile py_isspace s)))"

definition lower_char :: "char \<Rightarrow> char" where
  "lower_char c =
     (case map_of (zip ''ABCDEFGHIJKLMNOPQRSTUVWXYZ'' ''abcdefghijklmnopqrstuvwxyz'') c of
        Some l \<Rightarrow> l
      | None \<Rightarrow> c)"

definition lower :: "string \<Rightarrow> string" where
  "lower s = map lower_char s"

text \<open>\<^verbatim>\<open>sub in s\<close> on strings.\<close>

fun str_contains :: "string \<Rightarrow> string \<Rightarrow> bool" where
  "str_contains sub [] = (sub = [])"
| "str_contains sub (c # cs) = (take (length sub) (c # cs) = sub \<or> str_contains sub cs)"

text \<open>\<^verbatim>\<open>s.split(sep)\<close> for a one-character separator: one more piece than separators.\<close>

fun split_on :: "char \<Rightarrow> string \<Rightarrow> string list" where
  "split_on sep [] = [[]]"
| "split_on sep (c # cs) =
     (if c = sep then [] # split_on sep cs
      else (case split_on sep cs of
              [] \<Rightarrow> [[c]]
            | p # ps \<Rightarrow> (c # p) # ps))"

text \<open>\<^verbatim>\<open>s.replace(old, new)\<close> for a one-character \<^verbatim>\<open>old\<close>.\<close>

definition replace_char :: "char \<Rightarrow> string \<Rightarrow> string \<Rightarrow> string" where
  "replace_char old new s = concat (map (\<lambda>c. if c = old then new else [c]) s)"

text \<open>\<^verbatim>\<open>"".join(s.splitlines())\<close>: the text without its line boundaries.\<close>

definition is_linebreak :: "char \<Rightarrow> bool" where
  "is_linebreak c = (let n = (of_char c :: nat) in (10 \<le> n \<and> n \<le> 13) \<or> (28 \<le> n \<and> n \<le> 30))"

definition join_splitlines :: "string \<Rightarrow> string" where
  "join_splitlines s = filter (\<lambda>c. \<not> is_linebreak c) s"

definition count_char :: "char \<Rightarrow> string \<Rightarrow> int" where
  "count_char c s = int (length (filter (\<lambda>x. x = c) s))"

text \<open>\<^verbatim>\<open>str(n)\<close> of an integer, for the cursor-position sequence.\<close>

definition digit_char :: "nat \<Rightarrow> char" where
  "digit_char d = ''0123456789'' ! (d mod 10)"

function str_nat :: "nat \<Rightarrow> string" where
  "str_nat n = (if n < 10 then [digit_char n] else str_nat (n div 10) @ [digit_char (n mod 10)])"
  by pat_completeness auto
termination
  by (relation "measure id") auto

declare str_nat.simps [simp del]

definition str_int :: "int \<Rightarrow> string" where
  "str_int i = (if i < 0 then CHR ''-'' # str_nat (nat (- i)) else str_nat (nat i))"

text \<open>
  \<^verbatim>\<open>int(s)\<close> in base ten: surrounding blanks are dropped (space, tab, line feed, vertical
  tab, form feed and carriage return only: the separators 0x1C to 0x1F, which \<^verbatim>\<open>str.strip\<close>
  drops, are not blanks here), one sign is allowed, and the digits may be grouped by single
  underscores. Anything else is a \<^verbatim>\<open>ValueError\<close>, and so is a number of more than 4300
  digits, the interpreter's default limit for one conversion.
\<close>

definition int_isspace :: "char \<Rightarrow> bool" where
  "int_isspace c = (let n = (of_char c :: nat) in (9 \<le> n \<and> n \<le> 13) \<or> n = 32)"

definition int_strip :: "string \<Rightarrow> string" where
  "int_strip s = rev (dropWhile int_isspace (rev (dropWhile int_isspace s)))"

definition max_str_digits :: nat where
  "max_str_digits = 4300"

definition is_digit :: "char \<Rightarrow> bool" where
  "is_digit c = (c \<in> set ''0123456789'')"

definition digit_val :: "char \<Rightarrow> nat" where
  "digit_val c = of_char c - 48"

fun digits_ok :: "bool \<Rightarrow> string \<Rightarrow> bool" where
  "digits_ok prev [] = prev"
| "digits_ok prev (c # cs) =
     (if is_digit c then digits_ok True cs
      else if c = CHR ''_'' \<and> prev then (cs \<noteq> [] \<and> digits_ok False cs)
      else False)"

definition digits_value :: "string \<Rightarrow> nat" where
  "digits_value s = foldl (\<lambda>a c. 10 * a + digit_val c) 0 (filter is_digit s)"

definition parse_digits :: "string \<Rightarrow> py_error + nat" where
  "parse_digits b =
     (if digits_ok False b \<and> length (filter is_digit b) \<le> max_str_digits
      then Inr (digits_value b)
      else Inl ValueError)"

definition py_int :: "string \<Rightarrow> py_error + int" where
  "py_int s =
     (case int_strip s of
        [] \<Rightarrow> Inl ValueError
      | c # cs \<Rightarrow>
          if c = CHR ''-'' then
            (case parse_digits cs of Inl e \<Rightarrow> Inl e | Inr n \<Rightarrow> Inr (- int n))
          else if c = CHR ''+'' then
            (case parse_digits cs of Inl e \<Rightarrow> Inl e | Inr n \<Rightarrow> Inr (int n))
          else
            (case parse_digits (c # cs) of Inl e \<Rightarrow> Inl e | Inr n \<Rightarrow> Inr (int n)))"

text \<open>The generator \<^verbatim>\<open>tuple(int(val) for val in ...)\<close>: the first failure is raised.\<close>

fun int_all :: "string list \<Rightarrow> py_error + int list" where
  "int_all [] = Inr []"
| "int_all (v # vs) =
     (case py_int v of
        Inl e \<Rightarrow> Inl e
      | Inr n \<Rightarrow> (case int_all vs of Inl e \<Rightarrow> Inl e | Inr ns \<Rightarrow> Inr (n # ns)))"


section \<open>terminal.py: Recorder\<close>

record Recorder =
  recording :: "(string \<times> real) list"
  start_stamp :: real

text \<open>\<^verbatim>\<open>Recorder.__init__\<close>; \<open>now\<close> is what \<^verbatim>\<open>time.time()\<close> returns.\<close>

definition Recorder_init :: "real \<Rightarrow> Recorder" where
  "Recorder_init now = \<lparr>recording = [], start_stamp = now\<rparr>"

definition Recorder_content :: "Recorder \<Rightarrow> string" where
  "Recorder_content r = concat (map fst (recording r))"

definition Recorder_write :: "Recorder \<Rightarrow> string \<Rightarrow> real \<Rightarrow> Recorder" where
  "Recorder_write r data now = r\<lparr>recording := recording r @ [(data, now - start_stamp r)]\<rparr>"

text \<open>
  \<^verbatim>\<open>strip_ansi\<close> comes from the module \<^verbatim>\<open>regex\<close>, which is not among the sources: it is a
  parameter.
\<close>

definition export_text :: "(string \<Rightarrow> string) \<Rightarrow> Recorder \<Rightarrow> string" where
  "export_text strip_ansi r = strip_ansi (Recorder_content r)"

text \<open>A run of \<^verbatim>\<open>Recorder.write\<close> calls, each with the time at which it happens.\<close>

fun Recorder_writes :: "Recorder \<Rightarrow> (string \<times> real) list \<Rightarrow> Recorder" where
  "Recorder_writes r [] = r"
| "Recorder_writes r ((data, now) # ws) = Recorder_writes (Recorder_write r data now) ws"


section \<open>terminal.py: ColorSystem\<close>

datatype ColorSystem = NO_COLOR | STANDARD | EIGHT_BIT | TRUE

text \<open>\<^verbatim>\<open>ColorSystem[name]\<close>: the member of that name, or \<^verbatim>\<open>KeyError\<close>.\<close>

definition ColorSystem_getitem :: "string \<Rightarrow> py_error + ColorSystem" where
  "ColorSystem_getitem name =
     (if name = ''NO_COLOR'' then Inr NO_COLOR
      else if name = ''STANDARD'' then Inr STANDARD
      else if name = ''EIGHT_BIT'' then Inr EIGHT_BIT
      else if name = ''TRUE'' then Inr TRUE
      else Inl (KeyError name))"


section \<open>terminal.py: the process around the Terminal\<close>

text \<open>
  What the Terminal does to the outside is logged as events, in order. Recorder objects
  live in a store and are referred to by address, since the Terminal and its caller share
  them. The clock is read by \<^verbatim>\<open>time.time()\<close> and advanced by \<^verbatim>\<open>time.sleep\<close>; stream
  operations are taken to succeed.
\<close>

datatype event =
    StreamTruncate nat
  | StreamWrite string
  | StreamFlush
  | StdoutWrite string
  | StdoutFlush
  | Sleep real

record world =
  environ :: "string \<rightharpoonup> string"
  stdout_isatty :: bool
  heap :: "nat \<Rightarrow> Recorder"
  next_id :: nat
  clock :: real
  trace :: "event list"

definition emit :: "event list \<Rightarrow> world \<Rightarrow> world" where
  "emit es w = w\<lparr>trace := trace w @ es\<rparr>"

text \<open>\<^verbatim>\<open>time.sleep(d)\<close>: a negative duration is a \<^verbatim>\<open>ValueError\<close>. The call is logged either way.\<close>

definition time_sleep :: "real \<Rightarrow> world \<Rightarrow> (py_error + unit) \<times> world" where
  "time_sleep d w =
     (if d < 0 then (Inl ValueError, emit [Sleep d] w)
      else (Inr (), (emit [Sleep d] w)\<lparr>clock := clock w + d\<rparr>))"

text \<open>\<^verbatim>\<open>os.getenv(name)\<close> and \<^verbatim>\<open>os.getenv(name, default)\<close>.\<close>

definition getenv :: "world \<Rightarrow> string \<Rightarrow> string option" where
  "getenv w name = environ w name"

definition getenv_default :: "world \<Rightarrow> string \<Rightarrow> string \<Rightarrow> string" where
  "getenv_default w name dflt = (case environ w name of None \<Rightarrow> dflt | Some v \<Rightarrow> v)"

definition get_env_colorsys :: "world \<Rightarrow> py_error + ColorSystem option" where
  "get_env_colorsys w =
     (case getenv w ''PTG_COLORSYS'' of
        None \<Rightarrow> Inr None
      | Some colorsys \<Rightarrow>
          (case ColorSystem_getitem colorsys of
             Inr c \<Rightarrow> Inr (Some c)
           | Inl e \<Rightarrow> (if e = NameError then Inr None else Inl e)))"


section \<open>terminal.py: Terminal\<close>

record Terminal =
  recorder :: "nat option"
  cursor :: "int \<times> int"
  size_cells :: "int \<times> int"
  pixel_size :: "int \<times> int"
  forced :: "ColorSystem option"
  colorsystem_cache :: "ColorSystem option"

definition origin :: "int \<times> int" where
  "origin = (1, 1)"

text \<open>
  \<^verbatim>\<open>Terminal._get_pixel_size\<close>. \<open>getch\<close> is the text the blocking read returns when the
  query has been sent.
\<close>

definition get_pixel_size :: "string \<Rightarrow> world \<Rightarrow> (py_error + int \<times> int) \<times> world" where
  "get_pixel_size getch w =
     (if stdout_isatty w then
        (let w1 = emit [StdoutWrite (ESC # ''[14t''), StdoutFlush] w;
             output = drop 4 (butlast getch)
         in if CHR '';'' \<in> set output then
              (case int_all (split_on (CHR '';'') output) of
                 Inl e \<Rightarrow> (Inl e, w1)
               | Inr sz \<Rightarrow>
                   (case sz of
                      h # wd # _ \<Rightarrow> (Inr (wd, h), w1)
                    | _ \<Rightarrow> (Inl IndexError, w1)))
            else (Inr (0, 0), w1))
      else (Inr (0, 0), w))"

text \<open>\<^verbatim>\<open>Terminal._get_size\<close>; \<open>ts\<close> is what \<^verbatim>\<open>get_terminal_size()\<close> returns.\<close>

definition get_size :: "int \<times> int \<Rightarrow> int \<times> int" where
  "get_size ts = (fst ts - fst origin, snd ts - snd origin)"

text \<open>The body of the cached property \<^verbatim>\<open>colorsystem\<close>.\<close>

definition colorsystem_compute :: "Terminal \<Rightarrow> world \<Rightarrow> ColorSystem" where
  "colorsystem_compute t w =
     (case forced t of
        Some c \<Rightarrow> c
      | None \<Rightarrow>
          if getenv w ''NO_COLOR'' \<noteq> None then NO_COLOR
          else (let color_term = lower (strip (getenv_default w ''COLORTERM'' ''''))
                in if color_term \<in> set [''24bit'', ''truecolor''] then TRUE
                   else if color_term = ''256color'' then EIGHT_BIT
                   else STANDARD))"

text \<open>Reading \<^verbatim>\<open>colorsystem\<close>: the stored value if there is one, else computed and stored.\<close>

definition colorsystem :: "Terminal \<Rightarrow> world \<Rightarrow> ColorSystem \<times> Terminal" where
  "colorsystem t w =
     (case colorsystem_cache t of
        Some c \<Rightarrow> (c, t)
      | None \<Rightarrow> (let c = colorsystem_compute t w in (c, t\<lparr>colorsystem_cache := Some c\<rparr>)))"

text \<open>
  The setter of \<^verbatim>\<open>forced_colorsystem\<close>: \<^verbatim>\<open>hasattr\<close> reads the property (which stores it),
  and \<^verbatim>\<open>del\<close> removes the stored value.
\<close>

definition set_forced_colorsystem :: "ColorSystem option \<Rightarrow> Terminal \<Rightarrow> world \<Rightarrow> Terminal" where
  "set_forced_colorsystem new t w =
     (let t1 = t\<lparr>forced := new\<rparr>;
          t2 = snd (colorsystem t1 w)
      in t2\<lparr>colorsystem_cache := None\<rparr>)"

text \<open>
  \<^verbatim>\<open>Terminal.__init__\<close>, in the order of its assignments; listeners and the signal handler
  play no part here.
\<close>

definition Terminal_init :: "int \<times> int \<Rightarrow> string \<Rightarrow> world \<Rightarrow> (py_error + Terminal) \<times> world" where
  "Terminal_init ts getch w =
     (let t0 = \<lparr>recorder = None, cursor = origin, size_cells = get_size ts, pixel_size = (0, 0),
                forced = None, colorsystem_cache = None\<rparr>
      in case get_env_colorsys w of
           Inl e \<Rightarrow> (Inl e, w)
         | Inr f \<Rightarrow>
             (let t1 = set_forced_colorsystem f t0 w
              in case get_pixel_size getch w of
                   (Inl e, w1) \<Rightarrow> (Inl e, w1)
                 | (Inr ps, w1) \<Rightarrow> (Inr (t1\<lparr>pixel_size := ps\<rparr>), w1)))"

text \<open>\<^verbatim>\<open>Terminal.clear_stream\<close> and \<^verbatim>\<open>Terminal.write\<close>. \<open>real_length\<close> comes from the module
  \<^verbatim>\<open>regex\<close> and is a parameter.\<close>

definition clear_stream :: "world \<Rightarrow> world" where
  "clear_stream w = emit [StreamTruncate 0] w"

definition position_prefix :: "(int \<times> int) option \<Rightarrow> string" where
  "position_prefix pos =
     (case pos of
        None \<Rightarrow> []
      | Some (x, y) \<Rightarrow> ESC # ''['' @ str_int y @ '';'' @ str_int x @ ''H'')"

definition Terminal_write ::
  "(string \<Rightarrow> int) \<Rightarrow> string \<Rightarrow> (int \<times> int) option \<Rightarrow> bool \<Rightarrow> Terminal \<Rightarrow> world \<Rightarrow> Terminal \<times> world"
where
  "Terminal_write real_length data pos flush t w =
     (let w1 = (if str_contains (ESC # ''[2J'') data then clear_stream w else w);
          data1 = position_prefix pos @ data;
          w2 = (case recorder t of
                  None \<Rightarrow> w1
                | Some a \<Rightarrow> w1\<lparr>heap := (heap w1)(a := Recorder_write (heap w1 a) data1 (clock w1))\<rparr>);
          w3 = emit [StreamWrite data1] w2;
          w4 = (if flush then emit [StreamFlush] w3 else w3);
          t1 = t\<lparr>cursor := (fst (cursor t) + real_length (join_splitlines data1),
                             snd (cursor t) + count_char NL data1)\<rparr>
      in (t1, w4))"

text \<open>
  \<^verbatim>\<open>Terminal.record\<close> with the body of its \<^verbatim>\<open>with\<close> statement. The body gets the address
  of the new Recorder; whatever it does, the \<^verbatim>\<open>finally\<close> clause runs after it.
\<close>

definition record_scope ::
  "(nat \<Rightarrow> Terminal \<Rightarrow> world \<Rightarrow> (py_error + 'a) \<times> Terminal \<times> world) \<Rightarrow> Terminal \<Rightarrow> world
     \<Rightarrow> (py_error + 'a) \<times> Terminal \<times> world"
where
  "record_scope body t w =
     (if recorder t \<noteq> None then (Inl RuntimeError, t, w)
      else
        (let a = next_id w;
             w1 = w\<lparr>heap := (heap w)(a := Recorder_init (clock w)), next_id := Suc a\<rparr>;
             t1 = t\<lparr>recorder := Some a\<rparr>
         in case body a t1 w1 of
              (res, t2, w2) \<Rightarrow> (res, t2\<lparr>recorder := None\<rparr>, w2)))"

text \<open>
  \<^verbatim>\<open>Terminal.replay\<close>. The \<^verbatim>\<open>for\<close> loop walks the list of the Recorder at address \<open>a\<close> by
  index and reads the list again at every step, as a Python list iterator does; the loop
  need not end when the Terminal is recording into that same Recorder.
\<close>

partial_function (option) replay_loop ::
  "(string \<Rightarrow> int) \<Rightarrow> nat \<Rightarrow> nat \<Rightarrow> real \<Rightarrow> Terminal \<Rightarrow> world
     \<Rightarrow> ((py_error + unit) \<times> Terminal \<times> world) option"
where
  "replay_loop real_length a i last_time t w =
     (if i < length (recording (heap w a)) then
        (case recording (heap w a) ! i of
           (data, delay) \<Rightarrow>
             (case (if last_time > 0 then time_sleep (delay - last_time) w else (Inr (), w)) of
                (Inl e, w1) \<Rightarrow> Some (Inl e, t, w1)
              | (Inr u, w1) \<Rightarrow>
                  (case Terminal_write real_length data None True t w1 of
                     (t2, w2) \<Rightarrow> replay_loop real_length a (Suc i) delay t2 w2)))
      else Some (Inr (), t, w))"

definition replay ::
  "(string \<Rightarrow> int) \<Rightarrow> nat \<Rightarrow> Terminal \<Rightarrow> world \<Rightarrow> ((py_error + unit) \<times> Terminal \<times> world) option"
where
  "replay real_length a t w = replay_loop real_length a 0 0 t w"

text \<open>
  The same loop cut off after \<open>n\<close> steps, for what a replay has done by then whether or
  not it ever ends: the outcome is \<open>None\<close> while the loop is still running.
\<close>

fun replay_fuel ::
  "nat \<Rightarrow> (string \<Rightarrow> int) \<Rightarrow> nat \<Rightarrow> nat \<Rightarrow> real \<Rightarrow> Terminal \<Rightarrow> world
     \<Rightarrow> (py_error + unit) option \<times> Terminal \<times> world"
where
  "replay_fuel 0 real_length a i last_time t w = (None, t, w)"
| "replay_fuel (Suc n) real_length a i last_time t w =
     (if i < length (recording (heap w a)) then
        (case recording (heap w a) ! i of
           (data, delay) \<Rightarrow>
             (case (if last_time > 0 then time_sleep (delay - last_time) w else (Inr (), w)) of
                (Inl e, w1) \<Rightarrow> (Some (Inl e), t, w1)
              | (Inr u, w1) \<Rightarrow>
                  (case Terminal_write real_length data None True t w1 of
                     (t2, w2) \<Rightarrow> replay_fuel n real_length a (Suc i) delay t2 w2)))
      else (Some (Inr ()), t, w))"

definition replay_prefix ::
  "nat \<Rightarrow> (string \<Rightarrow> int) \<Rightarrow> nat \<Rightarrow> Terminal \<Rightarrow> world \<Rightarrow> world"
where
  "replay_prefix n real_length a t w = snd (snd (replay_fuel n real_length a 0 0 t w))"

text \<open>
  No entry of the Recorder at \<open>a\<close> is stamped later than the clock now reads.
  \<^verbatim>\<open>Recorder.write\<close>, the one place that adds an entry, stamps it with the clock.
\<close>

definition stamps_behind_clock :: "world \<Rightarrow> nat \<Rightarrow> bool" where
  "stamps_behind_clock w a =
     list_all (\<lambda>e. snd e \<le> clock w - start_stamp (heap w a)) (recording (heap w a))"

text \<open>
  What holds each time the loop is about to read entry \<open>i\<close>: the elapsed times do not
  decrease, a positive \<open>last_time\<close> is no later than any entry still to come, and a
  Recorder that the Terminal is recording into has no stamp ahead of the clock.
\<close>

definition replay_ready :: "nat \<Rightarrow> nat \<Rightarrow> real \<Rightarrow> Terminal \<Rightarrow> world \<Rightarrow> bool" where
  "replay_ready a i last_time t w =
     (sorted (map snd (recording (heap w a)))
      \<and> (last_time > 0 \<longrightarrow>
           (\<forall>j. i \<le> j \<and> j < length (recording (heap w a))
                \<longrightarrow> last_time \<le> snd (recording (heap w a) ! j)))
      \<and> (recorder t = Some a \<longrightarrow> stamps_behind_clock w a))"


text \<open>
  The same loop over a fixed list of entries, for a Recorder that nothing writes into
  while it is replayed.
\<close>

fun replay_run ::
  "(string \<Rightarrow> int) \<Rightarrow> real \<Rightarrow> (string \<times> real) list \<Rightarrow> Terminal \<Rightarrow> world
     \<Rightarrow> (py_error + unit) \<times> Terminal \<times> world"
where
  "replay_run real_length last_time [] t w = (Inr (), t, w)"
| "replay_run real_length last_time ((data, delay) # es) t w =
     (case (if last_time > 0 then time_sleep (delay - last_time) w else (Inr (), w)) of
        (Inl e, w1) \<Rightarrow> (Inl e, t, w1)
      | (Inr u, w1) \<Rightarrow>
          (case Terminal_write real_length data None True t w1 of
             (t2, w2) \<Rightarrow> replay_run real_length delay es t2 w2))"

text \<open>The events of one flushing write without a position.\<close>

definition write_events :: "string \<Rightarrow> event list" where
  "write_events data =
     (if str_contains (ESC # ''[2J'') data then [StreamTruncate 0] else [])
       @ [StreamWrite data, StreamFlush]"

text \<open>
  The events of a replay, entry by entry: a sleep before an entry when the elapsed time
  of the entry before it is positive, then the write. A negative duration makes the sleep
  raise, which ends the replay.
\<close>

fun replay_events :: "real \<Rightarrow> (string \<times> real) list \<Rightarrow> event list" where
  "replay_events last_time [] = []"
| "replay_events last_time ((data, delay) # es) =
     (if last_time > 0 then
        (if delay - last_time < 0 then [Sleep (delay - last_time)]
         else Sleep (delay - last_time) # write_events data @ replay_events delay es)
      else write_events data @ replay_events delay es)"

fun replay_result :: "real \<Rightarrow> (string \<times> real) list \<Rightarrow> py_error + unit" where
  "replay_result last_time [] = Inr ()"
| "replay_result last_time ((data, delay) # es) =
     (if last_time > 0 \<and> delay - last_time < 0 then Inl ValueError
      else replay_result delay es)"

text \<open>
  The events as the specification words them: no sleep before the first entry, and before
  every later entry a sleep for the difference of the elapsed times.
\<close>

fun claimed_later_events :: "real \<Rightarrow> (string \<times> real) list \<Rightarrow> event list" where
  "claimed_later_events prev [] = []"
| "claimed_later_events prev ((data, delay) # es) =
     Sleep (delay - prev) # write_events data @ claimed_later_events delay es"

fun claimed_replay_events :: "(string \<times> real) list \<Rightarrow> event list" where
  "claimed_replay_events [] = []"
| "claimed_replay_events ((data, delay) # es) = write_events data @ claimed_later_events delay es"

text \<open>The sleeps among some events, and the sleeps between neighbouring entries given
  by their elapsed times: one for each entry whose predecessor has a positive elapsed time.\<close>

fun sleeps_of :: "event list \<Rightarrow> real list" where
  "sleeps_of [] = []"
| "sleeps_of (Sleep d # es) = d # sleeps_of es"
| "sleeps_of (e # es) = sleeps_of es"

fun gaps :: "real \<Rightarrow> real list \<Rightarrow> real list" where
  "gaps last_time [] = []"
| "gaps last_time (e # es) = (if last_time > 0 then [e - last_time] else []) @ gaps e es"

text \<open>Values for concrete runs.\<close>

definition no_recorders :: "nat \<Rightarrow> Recorder" where
  "no_recorders a = Recorder_init 0"

definition fresh_world :: "(string \<rightharpoonup> string) \<Rightarrow> bool \<Rightarrow> world" where
  "fresh_world env tty =
     \<lparr>environ = env, stdout_isatty = tty, heap = no_recorders, next_id = 0, clock = 0, trace = []\<rparr>"

definition idle_terminal :: Terminal where
  "idle_terminal =
     \<lparr>recorder = None, cursor = origin, size_cells = (79, 23), pixel_size = (0, 0),
      forced = None, colorsystem_cache = None\<rparr>"

definition char_count :: "string \<Rightarrow> int" where
  "char_count s = int (length s)"

definition spec_recording :: "(string \<times> real) list" where
  "spec_recording = [(''a'', 0), (''b'', 0.05), (''c'', 0.12)]"


section \<open>Colour system resolution\<close>

text \<open>
  The resolution order as the specification words it, with the colour-term value compared
  as it stands.
\<close>

definition claimed_colorsystem :: "ColorSystem option \<Rightarrow> (string \<rightharpoonup> string) \<Rightarrow> ColorSystem" where
  "claimed_colorsystem f env =
     (case f of
        Some c \<Rightarrow> c
      | None \<Rightarrow>
          if env ''NO_COLOR'' \<noteq> None then NO_COLOR
          else if env ''COLORTERM'' = Some ''24bit'' \<or> env ''COLORTERM'' = Some ''truecolor'' then TRUE
          else if env ''COLORTERM'' = Some ''256color'' then EIGHT_BIT
          else STANDARD)"

text \<open>The events a replay adds to the trace, when it returns.\<close>

definition replay_log ::
  "(string \<Rightarrow> int) \<Rightarrow> nat \<Rightarrow> Terminal \<Rightarrow> world \<Rightarrow> event list option"
where
  "replay_log real_length a t w =
     map_option (\<lambda>r. drop (length (trace w)) (trace (snd (snd r)))) (replay real_length a t w)"

definition replay_outcome ::
  "(string \<Rightarrow> int) \<Rightarrow> nat \<Rightarrow> Terminal \<Rightarrow> world \<Rightarrow> (py_error + unit) option"
where
  "replay_outcome real_length a t w = map_option fst (replay real_length a t w)"

text \<open>
  Worlds for concrete runs. In the first, Recorder 0 holds the recording of the
  specification's example. In the second it holds a recording that starts at 0 too, with
  stamps that binary floating point represents exactly, so that every difference below is
  also the one the floats of the source give. In the third, Recorder 0 holds two entries
  made at 1 and 3 and the clock stands at 5.
\<close>

definition spec_world :: world where
  "spec_world =
     (fresh_world Map.empty False)
       \<lparr>heap := no_recorders(0 := \<lparr>recording = spec_recording, start_stamp = 0\<rparr>)\<rparr>"

definition zero_start_recording :: "(string \<times> real) list" where
  "zero_start_recording = [(''a'', 0), (''b'', 0.25), (''c'', 0.75)]"

definition zero_start_world :: world where
  "zero_start_world =
     (fresh_world Map.empty False)
       \<lparr>heap := no_recorders(0 := \<lparr>recording = zero_start_recording, start_stamp = 0\<rparr>)\<rparr>"

definition late_world :: world where
  "late_world =
     (fresh_world Map.empty False)
       \<lparr>heap := no_recorders(0 := \<lparr>recording = [(''a'', 1), (''b'', 3)], start_stamp = 0\<rparr>),
        clock := 5\<rparr>"

text \<open>A body for a recording scope: it writes through the Terminal and then fails.\<close>

definition failing_body :: "nat \<Rightarrow> Terminal \<Rightarrow> world \<Rightarrow> (py_error + unit) \<times> Terminal \<times> world" where
  "failing_body a t w =
     (case Terminal_write char_count ''hi'' None False t w of
        (t1, w1) \<Rightarrow> (Inl ValueError, t1, w1))"

definition recording_terminal :: Terminal where
  "recording_terminal = idle_terminal\<lparr>recorder := Some 0\<rparr>"


section \<open>Regular expressions\<close>


text \<open>
  The highlighter hands its patterns to Python's \<^verbatim>\<open>re\<close> module. The part of \<^verbatim>\<open>re\<close> that is
  modelled: literals, \<^verbatim>\<open>.\<close>, the escapes \<^verbatim>\<open>\d \w \s \n\<close> and escaped punctuation, character
  sets with ranges and negation, greedy \<^verbatim>\<open>* + ?\<close>, alternation, and numbered, named and
  non-capturing groups. Whatever else a pattern uses (anchors, look-around, back
  references, lazy or counted repetition) compiles to \<open>Unsupported\<close>; a pattern that \<^verbatim>\<open>re\<close>
  rejects compiles to \<open>ReError\<close>.
\<close>

datatype citem = CChar char | CRange char char | CDigit | CWord | CSpace

definition is_alpha :: "char \<Rightarrow> bool" where
  "is_alpha c = (c \<in> set ''abcdefghijklmnopqrstuvwxyzABCDEFGHIJKLMNOPQRSTUVWXYZ'')"

fun citem_matches :: "citem \<Rightarrow> char \<Rightarrow> bool" where
  "citem_matches (CChar x) c = (c = x)"
| "citem_matches (CRange lo hi) c = ((of_char lo :: nat) \<le> of_char c \<and> (of_char c :: nat) \<le> of_char hi)"
| "citem_matches CDigit c = is_digit c"
| "citem_matches CWord c = (is_alpha c \<or> is_digit c \<or> c = CHR ''_'')"
| "citem_matches CSpace c = py_isspace c"

datatype regex =
    Eps
  | Sym char
  | Dot
  | CSet bool "citem list"
  | Seq regex regex
  | Alt regex regex
  | Star regex
  | Plus regex
  | Opt regex
  | Group nat regex

text \<open>
  A matching state: the text still to be read, the groups captured so far (latest first)
  and the index of the group closed last.
\<close>

type_synonym mstate = "string \<times> (nat \<times> string) list \<times> nat option"

definition accepts_char :: "regex \<Rightarrow> char \<Rightarrow> bool" where
  "accepts_char r c =
     (case r of
        Sym x \<Rightarrow> c = x
      | Dot \<Rightarrow> c \<noteq> NL
      | CSet neg items \<Rightarrow> (list_ex (\<lambda>i. citem_matches i c) items \<noteq> neg)
      | _ \<Rightarrow> False)"

definition one_char :: "regex \<Rightarrow> mstate \<Rightarrow> mstate list" where
  "one_char r st =
     (case st of
        ([], caps, li) \<Rightarrow> []
      | (c # cs, caps, li) \<Rightarrow> if accepts_char r c then [(cs, caps, li)] else [])"

definition close_group :: "nat \<Rightarrow> mstate \<Rightarrow> mstate \<Rightarrow> mstate" where
  "close_group i st st' =
     (case st' of
        (rest, caps, li) \<Rightarrow>
          (rest, (i, take (length (fst st) - length rest) (fst st)) # caps, Some i))"

text \<open>
  All ways for a regex to match at the start of the text, in the order in which the
  backtracking matcher of \<^verbatim>\<open>re\<close> tries them: the first alternative first, the longest
  repetition first. A repetition does not go round again after a round that has read
  nothing.
\<close>

function rmatch :: "regex \<Rightarrow> mstate \<Rightarrow> mstate list" where
  "rmatch Eps st = [st]"
| "rmatch (Sym c) st = one_char (Sym c) st"
| "rmatch Dot st = one_char Dot st"
| "rmatch (CSet neg items) st = one_char (CSet neg items) st"
| "rmatch (Seq r1 r2) st = concat (map (rmatch r2) (rmatch r1 st))"
| "rmatch (Alt r1 r2) st = rmatch r1 st @ rmatch r2 st"
| "rmatch (Star r) st =
     concat (map (\<lambda>st'. if length (fst st') < length (fst st) then rmatch (Star r) st' else [st'])
                 (rmatch r st)) @ [st]"
| "rmatch (Plus r) st =
     concat (map (\<lambda>st'. if length (fst st') < length (fst st) then rmatch (Star r) st' else [st'])
                 (rmatch r st))"
| "rmatch (Opt r) st = rmatch r st @ [st]"
| "rmatch (Group i r) st = map (close_group i st) (rmatch r st)"
  by pat_completeness auto
termination
  by (relation "inv_image (less_than <*lex*> less_than) (\<lambda>(r, st). (size r, length (fst st)))") auto

declare rmatch.simps(7) [simp del]

text \<open>
  The parser reads the pattern one character at a time. A frame is a group that is still
  open: its index if it captures, the alternatives it has completed and the items of the
  alternative in progress.
\<close>

datatype frame = Frame "nat option" "regex list" "regex list"

datatype pmode =
    Normal
  | Escape
  | GroupOpen
  | GroupQ
  | GroupP
  | GroupName string
  | ClassStart
  | InClass bool "citem list"
  | ClassEscape bool "citem list"
  | ClassAfter bool "citem list" citem
  | ClassRange bool "citem list" citem

record pstate =
  frames :: "frame list"
  mode :: pmode
  ngroups :: nat
  names :: "(string \<times> nat) list"
  quantified :: bool

fun seq_of :: "regex list \<Rightarrow> regex" where
  "seq_of [] = Eps"
| "seq_of [r] = r"
| "seq_of (r # rs) = Seq r (seq_of rs)"

fun alt_of :: "regex list \<Rightarrow> regex" where
  "alt_of [] = Eps"
| "alt_of [r] = r"
| "alt_of (r # rs) = Alt r (alt_of rs)"

definition frame_regex :: "frame \<Rightarrow> regex" where
  "frame_regex f = (case f of Frame gi alts items \<Rightarrow> alt_of (alts @ [seq_of items]))"

definition push_item :: "regex \<Rightarrow> pstate \<Rightarrow> py_error + pstate" where
  "push_item r p =
     (case frames p of
        [] \<Rightarrow> Inl ReError
      | Frame gi alts items # fs \<Rightarrow>
          Inr (p\<lparr>frames := Frame gi alts (items @ [r]) # fs, mode := Normal, quantified := False\<rparr>))"

definition quantify :: "(regex \<Rightarrow> regex) \<Rightarrow> pstate \<Rightarrow> py_error + pstate" where
  "quantify q p =
     (case frames p of
        [] \<Rightarrow> Inl ReError
      | Frame gi alts items # fs \<Rightarrow>
          if items = [] then Inl ReError
          else if quantified p then Inl Unsupported
          else Inr (p\<lparr>frames := Frame gi alts (butlast items @ [q (last items)]) # fs,
                      quantified := True\<rparr>))"

definition open_group :: "string option \<Rightarrow> pstate \<Rightarrow> pstate" where
  "open_group name p =
     (let i = Suc (ngroups p)
      in p\<lparr>frames := Frame (Some i) [] [] # frames p, mode := Normal, ngroups := i,
           names := (case name of None \<Rightarrow> names p | Some n \<Rightarrow> names p @ [(n, i)]),
           quantified := False\<rparr>)"

definition close_frame :: "pstate \<Rightarrow> py_error + pstate" where
  "close_frame p =
     (case frames p of
        f # g # fs \<Rightarrow>
          (case f of
             Frame gi alts items \<Rightarrow>
               push_item (case gi of None \<Rightarrow> frame_regex f | Some i \<Rightarrow> Group i (frame_regex f))
                 (p\<lparr>frames := g # fs\<rparr>))
      | _ \<Rightarrow> Inl ReError)"

definition next_alternative :: "pstate \<Rightarrow> py_error + pstate" where
  "next_alternative p =
     (case frames p of
        [] \<Rightarrow> Inl ReError
      | Frame gi alts items # fs \<Rightarrow>
          Inr (p\<lparr>frames := Frame gi (alts @ [seq_of items]) [] # fs, quantified := False\<rparr>))"

definition is_identifier :: "string \<Rightarrow> bool" where
  "is_identifier n =
     (case n of
        [] \<Rightarrow> False
      | c # cs \<Rightarrow> (is_alpha c \<or> c = CHR ''_'')
                  \<and> list_all (\<lambda>x. is_alpha x \<or> is_digit x \<or> x = CHR ''_'') cs)"

definition normal_step :: "pstate \<Rightarrow> char \<Rightarrow> py_error + pstate" where
  "normal_step p c =
     (if c = CHR ''('' then Inr (p\<lparr>mode := GroupOpen\<rparr>)
      else if c = CHR '')'' then close_frame p
      else if c = CHR ''|'' then next_alternative p
      else if c = CHR ''*'' then quantify Star p
      else if c = CHR ''+'' then quantify Plus p
      else if c = CHR ''?'' then quantify Opt p
      else if c = CHR ''['' then Inr (p\<lparr>mode := ClassStart\<rparr>)
      else if c = BSLASH then Inr (p\<lparr>mode := Escape\<rparr>)
      else if c = CHR ''.'' then push_item Dot p
      else if c \<in> set ''^${'' then Inl Unsupported
      else push_item (Sym c) p)"

definition escape_step :: "pstate \<Rightarrow> char \<Rightarrow> py_error + pstate" where
  "escape_step p c =
     (if c = CHR ''d'' then push_item (CSet False [CDigit]) p
      else if c = CHR ''w'' then push_item (CSet False [CWord]) p
      else if c = CHR ''s'' then push_item (CSet False [CSpace]) p
      else if c = CHR ''n'' then push_item (Sym NL) p
      else if is_alpha c \<or> is_digit c then Inl Unsupported
      else push_item (Sym c) p)"

definition class_item_step :: "bool \<Rightarrow> citem list \<Rightarrow> pstate \<Rightarrow> char \<Rightarrow> py_error + pstate" where
  "class_item_step neg items p c =
     (if c = CHR '']'' \<and> items \<noteq> [] then push_item (CSet neg items) p
      else if c = BSLASH then Inr (p\<lparr>mode := ClassEscape neg items\<rparr>)
      else Inr (p\<lparr>mode := ClassAfter neg items (CChar c)\<rparr>))"

definition class_escape_step :: "bool \<Rightarrow> citem list \<Rightarrow> pstate \<Rightarrow> char \<Rightarrow> py_error + pstate" where
  "class_escape_step neg items p c =
     (if c = CHR ''d'' then Inr (p\<lparr>mode := ClassAfter neg items CDigit\<rparr>)
      else if c = CHR ''w'' then Inr (p\<lparr>mode := ClassAfter neg items CWord\<rparr>)
      else if c = CHR ''s'' then Inr (p\<lparr>mode := ClassAfter neg items CSpace\<rparr>)
      else if c = CHR ''n'' then Inr (p\<lparr>mode := ClassAfter neg items (CChar NL)\<rparr>)
      else if is_alpha c \<or> is_digit c then Inl Unsupported
      else Inr (p\<lparr>mode := ClassAfter neg items (CChar c)\<rparr>))"

definition class_range_step ::
  "bool \<Rightarrow> citem list \<Rightarrow> citem \<Rightarrow> pstate \<Rightarrow> char \<Rightarrow> py_error + pstate"
where
  "class_range_step neg items lo p c =
     (if c = CHR '']'' then push_item (CSet neg (items @ [lo, CChar (CHR ''-'')])) p
      else if c = BSLASH then Inl Unsupported
      else (case lo of
              CChar l \<Rightarrow>
                if (of_char l :: nat) \<le> of_char c
                then Inr (p\<lparr>mode := InClass neg (items @ [CRange l c])\<rparr>)
                else Inl ReError
            | _ \<Rightarrow> Inl ReError))"

definition pstep :: "pstate \<Rightarrow> char \<Rightarrow> py_error + pstate" where
  "pstep p c =
     (case mode p of
        Normal \<Rightarrow> normal_step p c
      | Escape \<Rightarrow> escape_step p c
      | GroupOpen \<Rightarrow>
          if c = CHR ''?'' then Inr (p\<lparr>mode := GroupQ\<rparr>)
          else normal_step (open_group None p) c
      | GroupQ \<Rightarrow>
          if c = CHR ''P'' then Inr (p\<lparr>mode := GroupP\<rparr>)
          else if c = CHR '':'' then
            Inr (p\<lparr>frames := Frame None [] [] # frames p, mode := Normal, quantified := False\<rparr>)
          else Inl Unsupported
      | GroupP \<Rightarrow>
          if c = CHR ''<'' then Inr (p\<lparr>mode := GroupName []\<rparr>) else Inl Unsupported
      | GroupName acc \<Rightarrow>
          if c = CHR ''>'' then
            (if is_identifier acc \<and> acc \<notin> set (map fst (names p))
             then Inr (open_group (Some acc) p)
             else Inl ReError)
          else Inr (p\<lparr>mode := GroupName (acc @ [c])\<rparr>)
      | ClassStart \<Rightarrow>
          if c = CHR ''^'' then Inr (p\<lparr>mode := InClass True []\<rparr>)
          else class_item_step False [] p c
      | InClass neg items \<Rightarrow> class_item_step neg items p c
      | ClassEscape neg items \<Rightarrow> class_escape_step neg items p c
      | ClassAfter neg items it \<Rightarrow>
          if c = CHR ''-'' then Inr (p\<lparr>mode := ClassRange neg items it\<rparr>)
          else class_item_step neg (items @ [it]) p c
      | ClassRange neg items lo \<Rightarrow> class_range_step neg items lo p c)"

text \<open>
\<^verbatim>\<open>re.compile\<close>.
\<close>

fun psteps :: "pstate \<Rightarrow> string \<Rightarrow> py_error + pstate" where
  "psteps p [] = Inr p"
| "psteps p (c # cs) = (case pstep p c of Inl e \<Rightarrow> Inl e | Inr p' \<Rightarrow> psteps p' cs)"

record pattern =
  pattern_regex :: regex
  groupindex :: "(string \<times> nat) list"

definition re_compile :: "string \<Rightarrow> py_error + pattern" where
  "re_compile s =
     (case psteps \<lparr>frames = [Frame None [] []], mode = Normal, ngroups = 0, names = [],
                   quantified = False\<rparr> s of
        Inl e \<Rightarrow> Inl e
      | Inr p \<Rightarrow>
          (case (mode p, frames p) of
             (Normal, [f]) \<Rightarrow> Inr \<lparr>pattern_regex = frame_regex f, groupindex = names p\<rparr>
           | _ \<Rightarrow> Inl ReError))"


section \<open>highlighters.py: RegexHighlighter\<close>

text \<open>
  What \<^verbatim>\<open>_insert_style\<close> reads of a match object: \<^verbatim>\<open>groupdict()\<close> and \<^verbatim>\<open>lastgroup\<close>.
\<close>

record match_obj =
  m_groupdict :: "(string \<times> string option) list"
  m_lastgroup :: "string option"

definition make_match :: "pattern \<Rightarrow> mstate \<Rightarrow> match_obj" where
  "make_match p st =
     (case st of
        (rest, caps, li) \<Rightarrow>
          \<lparr>m_groupdict = map (\<lambda>(n, i). (n, map_of caps i)) (groupindex p),
           m_lastgroup =
             (case li of
                None \<Rightarrow> None
              | Some i \<Rightarrow> map_of (map (\<lambda>(n, i). (i, n)) (groupindex p)) i)\<rparr>)"

text \<open>
  The match the search finds at the start of \<open>s\<close>, with the text after it. After an empty
  match the next one at the same place must not be empty.
\<close>

definition match_at :: "pattern \<Rightarrow> string \<Rightarrow> bool \<Rightarrow> (match_obj \<times> string) option" where
  "match_at p s must_advance =
     (case filter (\<lambda>st. \<not> must_advance \<or> length (fst st) < length s)
             (rmatch (pattern_regex p) (s, [], None)) of
        [] \<Rightarrow> None
      | st # _ \<Rightarrow> Some (make_match p st, fst st))"

text \<open>
  \<^verbatim>\<open>pattern.sub(repl, text)\<close> with a function \<open>repl\<close>: the matches from left to right, none
  overlapping another, each replaced by what \<open>repl\<close> returns, and the text between them
  kept. An error of \<open>repl\<close> ends the substitution.
\<close>

definition prepend :: "string \<Rightarrow> py_error + string \<Rightarrow> py_error + string" where
  "prepend out r = (case r of Inl e \<Rightarrow> Inl e | Inr t \<Rightarrow> Inr (out @ t))"

function re_sub ::
  "pattern \<Rightarrow> (match_obj \<Rightarrow> py_error + string) \<Rightarrow> string \<Rightarrow> bool \<Rightarrow> py_error + string"
where
  "re_sub p repl s must_advance =
     (case match_at p s must_advance of
        Some (m, rest) \<Rightarrow>
          (case repl m of
             Inl e \<Rightarrow> Inl e
           | Inr out \<Rightarrow>
               if length rest < length s then prepend out (re_sub p repl rest False)
               else if \<not> must_advance then prepend out (re_sub p repl s True)
               else Inl ReError)
      | None \<Rightarrow>
          (case s of
             [] \<Rightarrow> Inr []
           | c # cs \<Rightarrow> prepend [c] (re_sub p repl cs False)))"
  by pat_completeness auto
termination
  by (relation "inv_image (less_than <*lex*> less_than)
        (\<lambda>(p, repl, s, adv). (length s, if adv then 0 else Suc 0))") auto

declare re_sub.simps [simp del]

text \<open>
  \<^verbatim>\<open>str(v)\<close> of a string or \<^verbatim>\<open>None\<close>, and \<^verbatim>\<open>"[{tag}]{}[/{tag}]".format(content)\<close>. In the tag a
  doubled brace stands for one brace; a single brace makes \<^verbatim>\<open>format\<close> raise (a
  \<^verbatim>\<open>ValueError\<close>, \<^verbatim>\<open>IndexError\<close> or \<^verbatim>\<open>KeyError\<close>, here \<open>FormatError\<close>).
\<close>

definition py_str :: "string option \<Rightarrow> string" where
  "py_str v = (case v of None \<Rightarrow> ''None'' | Some s \<Rightarrow> s)"

fun format_literal :: "string \<Rightarrow> string option" where
  "format_literal [] = Some []"
| "format_literal [c] = (if c = CHR ''{'' \<or> c = CHR ''}'' then None else Some [c])"
| "format_literal (c # d # cs) =
     (if c = CHR ''{'' \<or> c = CHR ''}'' then
        (if d = c then map_option ((#) c) (format_literal cs) else None)
      else map_option ((#) c) (format_literal (d # cs)))"

definition style_format :: "string \<Rightarrow> string option \<Rightarrow> py_error + string" where
  "style_format tag content =
     (case format_literal tag of
        None \<Rightarrow> Inl FormatError
      | Some t \<Rightarrow> Inr (''['' @ t @ '']'' @ py_str content @ ''[/'' @ t @ '']''))"

text \<open>
  \<^verbatim>\<open>_insert_style\<close>. \<^verbatim>\<open>RE_MARKUP\<close> comes from the module \<^verbatim>\<open>regex\<close>, which is not among the
  sources: what \<^verbatim>\<open>RE_MARKUP.findall\<close> returns is a parameter.
\<close>

definition insert_style ::
  "(string \<Rightarrow> 'm list) \<Rightarrow> string \<Rightarrow> match_obj \<Rightarrow> py_error + string"
where
  "insert_style RE_MARKUP_findall prefix m =
     (let groups = m_groupdict m;
          name = m_lastgroup m;
          content = (case map_of groups (py_str name) of None \<Rightarrow> None | Some v \<Rightarrow> v)
      in case (if name = Some ''str'' then
                 (case content of
                    None \<Rightarrow> Inl TypeError
                  | Some c \<Rightarrow>
                      if length (RE_MARKUP_findall c) > 0
                      then Inr (Some (replace_char (CHR ''['') (BSLASH # ''['') c))
                      else Inr (Some c))
               else Inr content) of
           Inl e \<Rightarrow> Inl e
         | Inr content1 \<Rightarrow> style_format (prefix @ py_str name) content1)"

text \<open>
\<^verbatim>\<open>RegexHighlighter\<close>, its \<^verbatim>\<open>__post_init__\<close> and its \<^verbatim>\<open>__call__\<close>.
\<close>

record RegexHighlighter =
  styles :: "(string \<times> string) list"
  prefix :: string
  pattern_of :: pattern
  highlight_cache :: "string \<rightharpoonup> string"

definition rstrip_bar :: "string \<Rightarrow> string" where
  "rstrip_bar s = rev (dropWhile (\<lambda>c. c = CHR ''|'') (rev s))"

definition combined_pattern :: "(string \<times> string) list \<Rightarrow> string" where
  "combined_pattern sts =
     rstrip_bar (concat (map (\<lambda>(name, ptrn). ''(?P<'' @ name @ ''>'' @ ptrn @ '')|'') sts))"

definition RegexHighlighter_init ::
  "(string \<times> string) list \<Rightarrow> string \<Rightarrow> py_error + RegexHighlighter"
where
  "RegexHighlighter_init sts pre =
     (case re_compile (combined_pattern sts) of
        Inl e \<Rightarrow> Inl e
      | Inr p \<Rightarrow> Inr \<lparr>styles = sts, prefix = pre, pattern_of = p, highlight_cache = Map.empty\<rparr>)"

text \<open>
  The text a call computes when it does not answer from the cache.
\<close>

definition highlight_text :: "(string \<Rightarrow> 'm list) \<Rightarrow> RegexHighlighter \<Rightarrow> string \<Rightarrow> py_error + string" where
  "highlight_text RE_MARKUP_findall h text =
     re_sub (pattern_of h) (insert_style RE_MARKUP_findall (prefix h)) text False"

definition RegexHighlighter_call ::
  "(string \<Rightarrow> 'm list) \<Rightarrow> RegexHighlighter \<Rightarrow> string \<Rightarrow> bool
     \<Rightarrow> (py_error + string) \<times> RegexHighlighter"
where
  "RegexHighlighter_call RE_MARKUP_findall h text cache =
     (case (if cache then highlight_cache h text else None) of
        Some v \<Rightarrow> (Inr v, h)
      | None \<Rightarrow>
          (case highlight_text RE_MARKUP_findall h text of
             Inl e \<Rightarrow> (Inl e, h)
           | Inr out \<Rightarrow> (Inr out, h\<lparr>highlight_cache := (highlight_cache h)(text \<mapsto> out)\<rparr>)))"

text \<open>
  Modelled from the spec: \<^verbatim>\<open>RE_MARKUP\<close> of the module \<^verbatim>\<open>regex\<close> is missing from the sources.
  The specification calls a markup tag a bracketed name; \<open>markup_tags\<close> finds every
  \<^verbatim>\<open>[\<close>, then one or more characters that are not brackets, then \<^verbatim>\<open>]\<close>. It stands in for
  \<^verbatim>\<open>RE_MARKUP.findall\<close> in concrete runs only.
\<close>

fun scan_tags :: "string option \<Rightarrow> string \<Rightarrow> string list" where
  "scan_tags acc [] = []"
| "scan_tags None (c # cs) =
     (if c = CHR ''['' then scan_tags (Some []) cs else scan_tags None cs)"
| "scan_tags (Some a) (c # cs) =
     (if c = CHR ''['' then scan_tags (Some []) cs
      else if c = CHR '']'' then (if a = [] then scan_tags None cs else a # scan_tags None cs)
      else scan_tags (Some (a @ [c])) cs)"

definition markup_tags :: "string \<Rightarrow> string list" where
  "markup_tags s = scan_tags None s"

definition QUOTE :: char where
  "QUOTE = CHR 0x27"

text \<open>
  Constructing a highlighter and calling it once.
\<close>

definition highlight_once ::
  "(string \<times> string) list \<Rightarrow> string \<Rightarrow> string \<Rightarrow> py_error + string"
where
  "highlight_once sts pre text =
     (case RegexHighlighter_init sts pre of
        Inl e \<Rightarrow> Inl e
      | Inr h \<Rightarrow> fst (RegexHighlighter_call markup_tags h text True))"


text \<open>A run of calls, each with its text and its \<^verbatim>\<open>cache\<close> flag.\<close>

fun calls ::
  "(string \<Rightarrow> 'm list) \<Rightarrow> RegexHighlighter \<Rightarrow> (string \<times> bool) list \<Rightarrow> RegexHighlighter"
where
  "calls mk h [] = h"
| "calls mk h ((text, cache) # cs) = calls mk (snd (RegexHighlighter_call mk h text cache)) cs"

text \<open>Every entry of the cache is what a call without the cache computes for its key.\<close>

definition cache_consistent :: "(string \<Rightarrow> 'm list) \<Rightarrow> RegexHighlighter \<Rightarrow> bool" where
  "cache_consistent mk h =
     (\<forall>text out. highlight_cache h text = Some out \<longrightarrow> highlight_text mk h text = Inr out)"

text \<open>The highlighter of the specification's example, and one with a string style.\<close>

definition example_styles :: "(string \<times> string) list" where
  "example_styles = [(''num'', BSLASH # ''d+''), (''word'', ''[a-z]+'')]"

definition string_styles :: "(string \<times> string) list" where
  "string_styles = [(''str'', QUOTE # ''.+'' @ [QUOTE]), (''idx'', ''[a-z]+'' @ BSLASH # ''['' @ BSLASH # ''d+]'')]"


text \<open>
  The highlighters that the styles of the example and the string styles construct,
  written out; two match objects of the string styles, one of a string literal
  and one of an indexing; and the content of a token as the specification words the
  escaping, by the presence of an opening bracket.
\<close>

definition example_highlighter :: RegexHighlighter where
  "example_highlighter =
     \<lparr>styles = example_styles, prefix = ''x.'',
      pattern_of =
        \<lparr>pattern_regex =
           Alt (Group 1 (Plus (CSet False [CDigit])))
               (Group 2 (Plus (CSet False [CRange (CHR ''a'') (CHR ''z'')]))),
         groupindex = [(''num'', 1), (''word'', 2)]\<rparr>,
      highlight_cache = Map.empty\<rparr>"

definition string_highlighter :: RegexHighlighter where
  "string_highlighter =
     \<lparr>styles = string_styles, prefix = ''code.'',
      pattern_of =
        \<lparr>pattern_regex =
           Alt (Group 1 (Seq (Sym QUOTE) (Seq (Plus Dot) (Sym QUOTE))))
               (Group 2
                  (Seq (Plus (CSet False [CRange (CHR ''a'') (CHR ''z'')]))
                     (Seq (Sym (CHR ''['')) (Seq (Plus (CSet False [CDigit])) (Sym (CHR '']'')))))),
         groupindex = [(''str'', 1), (''idx'', 2)]\<rparr>,
      highlight_cache = Map.empty\<rparr>"

definition str_match :: match_obj where
  "str_match =
     \<lparr>m_groupdict = [(''str'', Some (QUOTE # ''[b]a'' @ [QUOTE])), (''idx'', None)],
      m_lastgroup = Some ''str''\<rparr>"

definition idx_match :: match_obj where
  "idx_match =
     \<lparr>m_groupdict = [(''str'', None), (''idx'', Some ''a[0]'')],
      m_lastgroup = Some ''idx''\<rparr>"

definition claimed_content :: "string \<Rightarrow> string \<Rightarrow> string" where
  "claimed_content name content =
     (if name = ''str'' \<and> CHR ''['' \<in> set content
      then replace_char (CHR ''['') (BSLASH # ''['') content
      else content)"


section \<open>Properties: colour system\<close>

text \<open>
  C1, as amended. After any assignment to \<^verbatim>\<open>forced_colorsystem\<close>, reading \<^verbatim>\<open>colorsystem\<close>
  resolves in this order: the forced colour system if there is one; else NO_COLOR if the
  variable NO_COLOR is set; else, with the value of COLORTERM (empty when unset) stripped
  of surrounding white space and lower-cased, TRUE if it is 24bit or truecolor, EIGHT_BIT
  if it is 256color, and STANDARD otherwise.
\<close>

theorem colorsystem_resolution:
  "fst (colorsystem (set_forced_colorsystem f t w0) w) =
     (case f of
        Some c \<Rightarrow> c
      | None \<Rightarrow>
          if environ w ''NO_COLOR'' \<noteq> None then NO_COLOR
          else (let v = lower (strip (case environ w ''COLORTERM'' of None \<Rightarrow> [] | Some x \<Rightarrow> x))
                in if v = ''24bit'' \<or> v = ''truecolor'' then TRUE
                   else if v = ''256color'' then EIGHT_BIT
                   else STANDARD))"
  by (simp add: colorsystem_def set_forced_colorsystem_def colorsystem_compute_def
      getenv_def getenv_default_def Let_def split: option.splits)

text \<open>
  C1 as stated compares the value of COLORTERM as it stands. With COLORTERM set to
  TRUECOLOR, nothing forced and NO_COLOR unset, the Terminal resolves to TRUE, where the
  stated order gives STANDARD.
\<close>

theorem colorsystem_counterexample:
  "fst (colorsystem idle_terminal (fresh_world [''COLORTERM'' \<mapsto> ''TRUECOLOR''] False)) = TRUE
   \<and> claimed_colorsystem (forced idle_terminal)
        (environ (fresh_world [''COLORTERM'' \<mapsto> ''TRUECOLOR''] False)) = STANDARD"
proof -
  have n: "lower (strip ''TRUECOLOR'') = ''truecolor''"
    by (simp add: lower_def lower_char_def strip_def py_isspace_def)
  show ?thesis
    by (simp add: colorsystem_def colorsystem_compute_def idle_terminal_def fresh_world_def
      getenv_def getenv_default_def claimed_colorsystem_def n)
qed

lemma getitem_unknown:
  "name \<notin> set [''NO_COLOR'', ''STANDARD'', ''EIGHT_BIT'', ''TRUE'']
     \<Longrightarrow> ColorSystem_getitem name = Inl (KeyError name)"
  unfolding ColorSystem_getitem_def by (simp del: One_nat_def)

text \<open>
  C4 does not hold of the code. When PTG_COLORSYS is set to a name that is not a member
  name, \<^verbatim>\<open>ColorSystem[name]\<close> raises \<^verbatim>\<open>KeyError\<close>; the handler catches \<^verbatim>\<open>NameError\<close> only, so
  the error leaves \<^verbatim>\<open>_get_env_colorsys\<close> and the construction of the Terminal.
\<close>

theorem get_env_colorsys_raises:
  assumes "name \<notin> set [''NO_COLOR'', ''STANDARD'', ''EIGHT_BIT'', ''TRUE'']"
    and "environ w ''PTG_COLORSYS'' = Some name"
  shows "get_env_colorsys w = Inl (KeyError name)
         \<and> fst (Terminal_init ts getch w) = Inl (KeyError name)"
proof -
  have g: "get_env_colorsys w = Inl (KeyError name)"
    using assms(2) getitem_unknown [OF assms(1)] by (simp add: get_env_colorsys_def getenv_def)
  show ?thesis using g by (simp add: Terminal_init_def)
qed

theorem get_env_colorsys_raises_witness:
  "''bogus'' \<notin> set [''NO_COLOR'', ''STANDARD'', ''EIGHT_BIT'', ''TRUE'']
   \<and> environ (fresh_world [''PTG_COLORSYS'' \<mapsto> ''bogus''] False) ''PTG_COLORSYS'' = Some ''bogus''
   \<and> get_env_colorsys (fresh_world [''PTG_COLORSYS'' \<mapsto> ''bogus''] False) = Inl (KeyError ''bogus'')
   \<and> fst (Terminal_init (80, 24) [] (fresh_world [''PTG_COLORSYS'' \<mapsto> ''bogus''] False))
        = Inl (KeyError ''bogus'')"
proof -
  have e: "environ (fresh_world [''PTG_COLORSYS'' \<mapsto> ''bogus''] False) ''PTG_COLORSYS'' = Some ''bogus''"
    by (simp add: fresh_world_def)
  have n: "''bogus'' \<notin> set [''NO_COLOR'', ''STANDARD'', ''EIGHT_BIT'', ''TRUE'']" by simp
  show ?thesis using get_env_colorsys_raises [OF n e] e n by simp
qed


section \<open>Properties: Recorder\<close>

lemma recording_Recorder_writes:
  "recording (Recorder_writes r ws)
     = recording r @ map (\<lambda>(data, now). (data, now - start_stamp r)) ws"
proof (induction ws arbitrary: r)
  case Nil
  then show ?case by simp
next
  case (Cons x ws)
  obtain data now where x: "x = (data, now)" by (cases x)
  show ?case by (simp add: x Cons.IH Recorder_write_def)
qed

text \<open>
  C6. Whatever chunks are written to a new Recorder, at whatever times, \<^verbatim>\<open>export_text\<close>
  returns \<^verbatim>\<open>strip_ansi\<close> of their concatenation in the order of writing.
\<close>

theorem export_text_roundtrip:
  "export_text strip_ansi (Recorder_writes (Recorder_init t0) ws)
     = strip_ansi (concat (map fst ws))"
proof -
  have c: "fst \<circ> (\<lambda>(data, now). (data, now - t0)) = fst"
    by (auto simp add: fun_eq_iff)
  show ?thesis
    by (simp add: export_text_def Recorder_content_def recording_Recorder_writes
        Recorder_init_def c)
qed


section \<open>Properties: recording scope\<close>

text \<open>
  C3. Entering \<^verbatim>\<open>record()\<close> on a Terminal that is recording raises \<^verbatim>\<open>RuntimeError\<close> and
  changes neither the Terminal, which keeps its Recorder, nor any Recorder. Entering it on
  a Terminal that is not recording runs the body with a new Recorder attached, passes on
  what the body returns or raises, and leaves the Terminal without a Recorder.
\<close>

theorem record_exclusive_and_released:
  "(recorder t = Some a \<longrightarrow> record_scope body t w = (Inl RuntimeError, t, w))
   \<and> (recorder t = None \<longrightarrow>
        fst (record_scope body t w)
          = fst (body (next_id w) (t\<lparr>recorder := Some (next_id w)\<rparr>)
              (w\<lparr>heap := (heap w)(next_id w := Recorder_init (clock w)), next_id := Suc (next_id w)\<rparr>))
        \<and> recorder (fst (snd (record_scope body t w))) = None)"
  by (simp add: record_scope_def Let_def split: prod.splits)

theorem record_exclusive_and_released_witness:
  "recorder recording_terminal = Some 0
   \<and> record_scope failing_body recording_terminal (fresh_world Map.empty False)
       = (Inl RuntimeError, recording_terminal, fresh_world Map.empty False)
   \<and> recorder idle_terminal = None
   \<and> fst (record_scope failing_body idle_terminal (fresh_world Map.empty False)) = Inl ValueError
   \<and> recorder (fst (snd (record_scope failing_body idle_terminal (fresh_world Map.empty False)))) = None"
proof -
  have r: "recorder recording_terminal = Some 0"
    by (simp add: recording_terminal_def)
  have i: "recorder idle_terminal = None"
    by (simp add: idle_terminal_def)
  have b: "fst (failing_body a t w) = Inl ValueError" for a t w
    by (simp add: failing_body_def split: prod.splits)
  show ?thesis
    using record_exclusive_and_released [of recording_terminal 0 failing_body "fresh_world Map.empty False"]
      record_exclusive_and_released [of idle_terminal 0 failing_body "fresh_world Map.empty False"]
      r i b
    by simp
qed


section \<open>Properties: replay\<close>

lemma Terminal_write_recorder [simp]:
  "recorder (fst (Terminal_write rl d p f t w)) = recorder t"
  by (simp add: Terminal_write_def Let_def)

lemma Terminal_write_heap_other:
  "recorder t \<noteq> Some a \<Longrightarrow> heap (snd (Terminal_write rl d p f t w)) a = heap w a"
  by (auto simp add: Terminal_write_def Let_def emit_def clear_stream_def split: option.splits)

lemma Terminal_write_log:
  "trace (snd (Terminal_write rl d None True t w)) = trace w @ write_events d"
  by (simp add: Terminal_write_def Let_def emit_def clear_stream_def write_events_def
      position_prefix_def split: option.splits)

lemma time_sleep_cases:
  obtains w1 where "d < 0" "time_sleep d w = (Inl ValueError, w1)" "trace w1 = trace w @ [Sleep d]" "heap w1 = heap w"
  | w1 where "\<not> d < 0" "time_sleep d w = (Inr (), w1)" "trace w1 = trace w @ [Sleep d]" "heap w1 = heap w"
  by (cases "d < 0") (simp_all add: time_sleep_def emit_def)

lemma replay_loop_step:
  assumes "i < length (recording (heap w a))" and "recording (heap w a) ! i = (data, delay)"
  shows "replay_loop rl a i last_time t w =
     (case (if last_time > 0 then time_sleep (delay - last_time) w else (Inr (), w)) of
                (Inl e, w1) \<Rightarrow> Some (Inl e, t, w1)
              | (Inr u, w1) \<Rightarrow>
                  (case Terminal_write rl data None True t w1 of
                     (t2, w2) \<Rightarrow> replay_loop rl a (Suc i) delay t2 w2))"
  by (subst replay_loop.simps) (simp only: assms if_True prod.case)

lemma replay_loop_end:
  assumes "\<not> i < length (recording (heap w a))"
  shows "replay_loop rl a i last_time t w = Some (Inr (), t, w)"
  by (subst replay_loop.simps) (simp only: assms if_False)

lemma replay_loop_detached:
  assumes "recorder t \<noteq> Some a"
  shows "replay_loop rl a i last_time t w
           = Some (replay_run rl last_time (drop i (recording (heap w a))) t w)"
  using assms
proof (induction "length (recording (heap w a)) - i" arbitrary: i last_time t w)
  case 0
  then have d: "drop i (recording (heap w a)) = []" by simp
  from 0 have "\<not> i < length (recording (heap w a))" by simp
  then show ?case by (simp add: replay_loop_end d)
next
  case (Suc n)
  let ?es = "recording (heap w a)"
  from Suc.hyps(2) have lt: "i < length ?es" by simp
  obtain data delay where e: "?es ! i = (data, delay)" by (cases "?es ! i")
  have dr: "drop i ?es = (data, delay) # drop (Suc i) ?es"
    using lt e by (simp add: Cons_nth_drop_Suc [symmetric])
  have step: "\<And>w1::world. heap w1 a = heap w a \<Longrightarrow>
     (case Terminal_write rl data None True t w1 of (t2, w2) \<Rightarrow> replay_loop rl a (Suc i) delay t2 w2)
     = Some (case Terminal_write rl data None True t w1 of (t2, w2) \<Rightarrow> replay_run rl delay (drop (Suc i) ?es) t2 w2)"
  proof -
    fix w1 :: world assume h1: "heap w1 a = heap w a"
    obtain t2 w2 where tw: "Terminal_write rl data None True t w1 = (t2, w2)"
      by (cases "Terminal_write rl data None True t w1")
    have r2: "recorder t2 \<noteq> Some a"
      using Terminal_write_recorder [of rl data None True t w1] tw Suc.prems by simp
    have h2: "heap w2 a = heap w a"
      using Terminal_write_heap_other [OF Suc.prems, of rl data None True w1] tw h1 by simp
    have n: "n = length (recording (heap w2 a)) - Suc i"
      using Suc.hyps(2) h2 by simp
    have ih: "replay_loop rl a (Suc i) delay t2 w2
                = Some (replay_run rl delay (drop (Suc i) ?es) t2 w2)"
      using Suc.hyps(1) [OF n r2] h2 by simp
    show "(case Terminal_write rl data None True t w1 of (t2, w2) \<Rightarrow> replay_loop rl a (Suc i) delay t2 w2)
     = Some (case Terminal_write rl data None True t w1 of (t2, w2) \<Rightarrow> replay_run rl delay (drop (Suc i) ?es) t2 w2)"
      by (simp add: tw ih)
  qed
  show ?case
  proof (cases "last_time > 0")
    case False
    then show ?thesis
      by (simp add: replay_loop_step [OF lt e] dr step)
  next
    case True
    show ?thesis
    proof (cases rule: time_sleep_cases [of "delay - last_time" w])
      case (1 w1)
      then show ?thesis using True by (simp add: replay_loop_step [OF lt e] dr)
    next
      case (2 w1)
      then have "heap w1 a = heap w a" by simp
      then show ?thesis using True 2 by (simp add: replay_loop_step [OF lt e] dr step)
    qed
  qed
qed

lemma replay_run_log:
  "trace (snd (snd (replay_run rl last_time es t w))) = trace w @ replay_events last_time es"
proof (induction es arbitrary: last_time t w)
  case Nil
  then show ?case by simp
next
  case (Cons x es)
  obtain data delay where x: "x = (data, delay)" by (cases x)
  show ?case
  proof (cases "last_time > 0")
    case False
    obtain t2 w2 where tw: "Terminal_write rl data None True t w = (t2, w2)"
      by (cases "Terminal_write rl data None True t w")
    have l2: "trace w2 = trace w @ write_events data"
      using Terminal_write_log [of rl data t w] tw by simp
    from False show ?thesis by (simp add: x tw Cons.IH l2)
  next
    case True
    show ?thesis
    proof (cases rule: time_sleep_cases [of "delay - last_time" w])
      case (1 w1)
      then show ?thesis using True by (simp add: x)
    next
      case (2 w1)
      obtain t2 w2 where tw: "Terminal_write rl data None True t w1 = (t2, w2)"
        by (cases "Terminal_write rl data None True t w1")
      have l2: "trace w2 = trace w1 @ write_events data"
        using Terminal_write_log [of rl data t w1] tw by simp
      from 2 True show ?thesis by (simp add: x tw Cons.IH l2)
    qed
  qed
qed

lemma replay_run_result:
  "fst (replay_run rl last_time es t w) = replay_result last_time es"
proof (induction es arbitrary: last_time t w)
  case Nil
  then show ?case by simp
next
  case (Cons x es)
  obtain data delay where x: "x = (data, delay)" by (cases x)
  show ?case
  proof (cases "last_time > 0")
    case False
    obtain t2 w2 where tw: "Terminal_write rl data None True t w = (t2, w2)"
      by (cases "Terminal_write rl data None True t w")
    from False show ?thesis by (simp add: x tw Cons.IH)
  next
    case True
    show ?thesis
    proof (cases rule: time_sleep_cases [of "delay - last_time" w])
      case (1 w1)
      then show ?thesis using True by (simp add: x)
    next
      case (2 w1)
      obtain t2 w2 where tw: "Terminal_write rl data None True t w1 = (t2, w2)"
        by (cases "Terminal_write rl data None True t w1")
      from 2 True show ?thesis by (simp add: x tw Cons.IH)
    qed
  qed
qed


lemma replay_detached_run:
  assumes "recorder t \<noteq> Some a"
  shows "replay rl a t w = Some (replay_run rl 0 (recording (heap w a)) t w)"
  using replay_loop_detached [OF assms, of rl 0 0 w] by (simp add: replay_def)

lemma replay_log_detached:
  assumes "recorder t \<noteq> Some a"
  shows "replay_log rl a t w = Some (replay_events 0 (recording (heap w a)))"
  by (simp add: replay_log_def replay_detached_run [OF assms] replay_run_log)

lemma replay_outcome_detached:
  assumes "recorder t \<noteq> Some a"
  shows "replay_outcome rl a t w = Some (replay_result 0 (recording (heap w a)))"
  by (simp add: replay_outcome_def replay_detached_run [OF assms] replay_run_result)

lemma sleeps_of_append: "sleeps_of (xs @ ys) = sleeps_of xs @ sleeps_of ys"
  by (induction xs rule: sleeps_of.induct) simp_all

lemma sleeps_of_write_events: "sleeps_of (write_events d) = []"
  by (simp add: write_events_def)

lemma sorted_replay:
  assumes "sorted (map snd es)" and "last_time > 0 \<longrightarrow> (\<forall>e\<in>set (map snd es). last_time \<le> e)"
  shows "replay_result last_time es = Inr ()
         \<and> sleeps_of (replay_events last_time es) = gaps last_time (map snd es)
         \<and> list_all (\<lambda>d. 0 \<le> d) (gaps last_time (map snd es))"
  using assms
proof (induction es arbitrary: last_time)
  case Nil
  then show ?case by simp
next
  case (Cons x es)
  obtain data delay where x: "x = (data, delay)" by (cases x)
  from Cons.prems(1) have s: "sorted (map snd es)" and le: "\<forall>e\<in>set (map snd es). delay \<le> e"
    by (simp_all add: x)
  have ih: "replay_result delay es = Inr ()
         \<and> sleeps_of (replay_events delay es) = gaps delay (map snd es)
         \<and> list_all (\<lambda>d. 0 \<le> d) (gaps delay (map snd es))"
    using Cons.IH [OF s, of delay] le by simp
  from Cons.prems(2) have d: "last_time > 0 \<Longrightarrow> last_time \<le> delay" by (simp add: x)
  show ?case
  proof (cases "last_time > 0")
    case True
    with d have "\<not> delay - last_time < 0" by simp
    then show ?thesis using True ih d
      by (simp add: x sleeps_of_append sleeps_of_write_events)
  next
    case False
    then show ?thesis using ih by (simp add: x sleeps_of_append sleeps_of_write_events)
  qed
qed

text \<open>
  Where every stamp is positive, the replay makes exactly the events that the
  specification words: the test \<^verbatim>\<open>last_time > 0.0\<close> stands for "there is an entry before
  this one".
\<close>

lemma claimed_later_events_positive:
  assumes "0 < last_time" and "sorted (last_time # map snd es)"
  shows "replay_events last_time es = claimed_later_events last_time es"
  using assms
proof (induction es arbitrary: last_time)
  case Nil
  then show ?case by simp
next
  case (Cons x es)
  obtain data delay where x: "x = (data, delay)" by (cases x)
  from Cons.prems have le: "last_time \<le> delay" and so: "sorted (delay # map snd es)"
    by (simp_all add: x)
  then have p: "0 < delay" using Cons.prems(1) by simp
  show ?case using Cons.IH [OF p so] Cons.prems(1) le by (simp add: x)
qed

lemma replay_events_as_claimed:
  assumes "list_all (\<lambda>e. 0 < snd e) es" and "sorted (map snd es)"
  shows "replay_events 0 es = claimed_replay_events es"
proof (cases es)
  case Nil
  then show ?thesis by simp
next
  case (Cons x xs)
  obtain data delay where x: "x = (data, delay)" by (cases x)
  have "0 < delay" "sorted (delay # map snd xs)" using assms Cons x by simp_all
  then show ?thesis using claimed_later_events_positive Cons x by simp
qed

lemma spec_events:
  "replay_events 0 spec_recording
     = [StreamWrite ''a'', StreamFlush, StreamWrite ''b'', StreamFlush,
        Sleep 0.07, StreamWrite ''c'', StreamFlush]"
  by (simp add: spec_recording_def write_events_def ESC_def)

lemma spec_world_heap: "recording (heap spec_world 0) = spec_recording"
  by (simp add: spec_world_def fresh_world_def)

lemma zero_start_heap: "recording (heap zero_start_world 0) = zero_start_recording"
  by (simp add: zero_start_world_def fresh_world_def)

text \<open>
  C2 does not hold of the code. After an entry stamped 0 the variable \<^verbatim>\<open>last_time\<close> is 0
  again, the test \<^verbatim>\<open>last_time > 0.0\<close> fails as it does before the first entry, and the
  second entry is written with no sleep before it. The recording at 0, 0.25 and 0.75 is
  replayed with the one sleep 0.5, where the specification has the sleeps 0.25 and 0.5; of
  the specification's own recording at 0, 0.05 and 0.12 the first two chunks are written
  back to back, where the specification has a sleep of 0.05 between them.
\<close>

theorem replay_skips_sleep_after_zero:
  "replay_log char_count 0 idle_terminal zero_start_world
     = Some [StreamWrite ''a'', StreamFlush, StreamWrite ''b'', StreamFlush,
             Sleep 0.5, StreamWrite ''c'', StreamFlush]
   \<and> claimed_replay_events (recording (heap zero_start_world 0))
     = [StreamWrite ''a'', StreamFlush, Sleep 0.25, StreamWrite ''b'', StreamFlush,
        Sleep 0.5, StreamWrite ''c'', StreamFlush]
   \<and> map_option (take 4) (replay_log char_count 0 idle_terminal spec_world)
     = Some [StreamWrite ''a'', StreamFlush, StreamWrite ''b'', StreamFlush]
   \<and> take 5 (claimed_replay_events (recording (heap spec_world 0)))
     = [StreamWrite ''a'', StreamFlush, Sleep 0.05, StreamWrite ''b'', StreamFlush]"
proof -
  have i: "recorder idle_terminal \<noteq> Some 0" by (simp add: idle_terminal_def)
  have z: "replay_events 0 zero_start_recording
     = [StreamWrite ''a'', StreamFlush, StreamWrite ''b'', StreamFlush,
        Sleep 0.5, StreamWrite ''c'', StreamFlush]"
    by (simp add: zero_start_recording_def write_events_def ESC_def)
  have cz: "claimed_replay_events zero_start_recording
     = [StreamWrite ''a'', StreamFlush, Sleep 0.25, StreamWrite ''b'', StreamFlush,
        Sleep 0.5, StreamWrite ''c'', StreamFlush]"
    by (simp add: zero_start_recording_def write_events_def ESC_def)
  have cs: "take 5 (claimed_replay_events spec_recording)
     = [StreamWrite ''a'', StreamFlush, Sleep 0.05, StreamWrite ''b'', StreamFlush]"
    by (simp add: spec_recording_def write_events_def ESC_def)
  show ?thesis
    using replay_log_detached [OF i, of char_count zero_start_world]
      replay_log_detached [OF i, of char_count spec_world]
    by (simp add: zero_start_heap spec_world_heap spec_events z cz cs)
qed

text \<open>
  For a Recorder that nothing writes into during the replay, and with streams that take
  every write, the replay also returns.
\<close>

lemma replay_detached_sleeps:
  assumes "recorder t \<noteq> Some a" and "sorted (map snd (recording (heap w a)))"
  shows "replay_outcome rl a t w = Some (Inr ())
         \<and> map_option sleeps_of (replay_log rl a t w) = Some (gaps 0 (map snd (recording (heap w a))))
         \<and> list_all (\<lambda>d. 0 \<le> d) (gaps 0 (map snd (recording (heap w a))))"
  using sorted_replay [OF assms(2), of 0] replay_outcome_detached [OF assms(1), of rl w]
    replay_log_detached [OF assms(1), of rl w]
  by simp

text \<open>The loop cut off after some steps and the loop itself end in the same way.\<close>

lemma replay_fuel_done:
  "replay_fuel n rl a i last_time t w = (Some r, t', w')
     \<Longrightarrow> replay_loop rl a i last_time t w = Some (r, t', w')"
proof (induction n arbitrary: i last_time t w)
  case 0
  then show ?case by simp
next
  case (Suc n)
  show ?case
  proof (cases "i < length (recording (heap w a))")
    case False
    then show ?thesis using Suc.prems by (simp add: replay_loop_end)
  next
    case True
    obtain data delay where e: "recording (heap w a) ! i = (data, delay)"
      by (cases "recording (heap w a) ! i")
    obtain x w1 where s: "(if last_time > 0 then time_sleep (delay - last_time) w else (Inr (), w)) = (x, w1)"
      by (cases "(if last_time > 0 then time_sleep (delay - last_time) w else (Inr (), w))")
    show ?thesis
    proof (cases x)
      case (Inl err)
      have "replay_fuel (Suc n) rl a i last_time t w = (Some (Inl err), t, w1)"
        using True e s Inl by simp
      then have "r = Inl err" "t' = t" "w' = w1" using Suc.prems by simp_all
      then show ?thesis using s Inl by (simp add: replay_loop_step [OF True e])
    next
      case (Inr u)
      obtain t2 w2 where tw: "Terminal_write rl data None True t w1 = (t2, w2)"
        by (cases "Terminal_write rl data None True t w1")
      have "replay_fuel n rl a (Suc i) delay t2 w2 = (Some r, t', w')"
        using Suc.prems True e s Inr tw by simp
      then have "replay_loop rl a (Suc i) delay t2 w2 = Some (r, t', w')" by (rule Suc.IH)
      then show ?thesis using s Inr tw by (simp add: replay_loop_step [OF True e])
    qed
  qed
qed


lemma replay_loop_fuel:
  assumes "replay_loop rl a i last_time t w = Some y"
  shows "\<exists>n. replay_fuel n rl a i last_time t w = (Some (fst y), snd y)"
proof (rule replay_loop.raw_induct
    [where P = "\<lambda>rl a i last_time t w y.
                  \<exists>n. replay_fuel n rl a i last_time t w = (Some (fst y), snd y)",
     OF _ assms])
  fix loop :: "(string \<Rightarrow> int) \<Rightarrow> nat \<Rightarrow> nat \<Rightarrow> real \<Rightarrow> Terminal \<Rightarrow> world
                 \<Rightarrow> ((py_error + unit) \<times> Terminal \<times> world) option"
  fix rl a i last_time t w y
  assume ih: "\<And>rl a i last_time t w y. loop rl a i last_time t w = Some y
                \<Longrightarrow> \<exists>n. replay_fuel n rl a i last_time t w = (Some (fst y), snd y)"
  assume body: "(if i < length (recording (heap w a)) then
        (case recording (heap w a) ! i of
           (data, delay) \<Rightarrow>
             (case (if last_time > 0 then time_sleep (delay - last_time) w else (Inr (), w)) of
                (Inl e, w1) \<Rightarrow> Some (Inl e, t, w1)
              | (Inr u, w1) \<Rightarrow>
                  (case Terminal_write rl data None True t w1 of
                     (t2, w2) \<Rightarrow> loop rl a (Suc i) delay t2 w2)))
      else Some (Inr (), t, w)) = Some y"
  show "\<exists>n. replay_fuel n rl a i last_time t w = (Some (fst y), snd y)"
  proof (cases "i < length (recording (heap w a))")
    case False
    then have "y = (Inr (), t, w)" using body by simp
    then have "replay_fuel (Suc 0) rl a i last_time t w = (Some (fst y), snd y)"
      using False by simp
    then show ?thesis by blast
  next
    case True
    obtain data delay where e: "recording (heap w a) ! i = (data, delay)"
      by (cases "recording (heap w a) ! i")
    obtain x w1 where s: "(if last_time > 0 then time_sleep (delay - last_time) w else (Inr (), w)) = (x, w1)"
      by (cases "(if last_time > 0 then time_sleep (delay - last_time) w else (Inr (), w))")
    show ?thesis
    proof (cases x)
      case (Inl err)
      then have "y = (Inl err, t, w1)" using body True e s by simp
      then have "replay_fuel (Suc 0) rl a i last_time t w = (Some (fst y), snd y)"
        using True e s Inl by simp
      then show ?thesis by blast
    next
      case (Inr u)
      obtain t2 w2 where tw: "Terminal_write rl data None True t w1 = (t2, w2)"
        by (cases "Terminal_write rl data None True t w1")
      have "loop rl a (Suc i) delay t2 w2 = Some y" using body True e s Inr tw by simp
      then obtain n where "replay_fuel n rl a (Suc i) delay t2 w2 = (Some (fst y), snd y)"
        using ih by blast
      then have "replay_fuel (Suc n) rl a i last_time t w = (Some (fst y), snd y)"
        using True e s Inr tw by simp
      then show ?thesis by blast
    qed
  qed
qed

lemma Terminal_write_effect:
  assumes "Terminal_write rl data None True t w = (t2, w2)"
  shows "recorder t2 = recorder t" and "trace w2 = trace w @ write_events data"
    and "clock w2 = clock w"
    and "heap w2 b = (if recorder t = Some b then Recorder_write (heap w b) data (clock w)
                      else heap w b)"
  using assms
  by (auto simp add: Terminal_write_def Let_def emit_def clear_stream_def write_events_def
      position_prefix_def split: option.splits)

lemma sorted_snoc_le:
  "sorted xs \<Longrightarrow> (\<forall>x\<in>set xs. x \<le> y) \<Longrightarrow> sorted (xs @ [y :: real])"
  by (simp add: sorted_append)

lemma replay_step_ready:
  assumes r: "replay_ready a i last_time t w"
    and i: "i < length (recording (heap w a))"
    and e: "recording (heap w a) ! i = (data, delay)"
    and c: "clock w \<le> clock w1" and h: "heap w1 = heap w"
    and tw: "Terminal_write rl data None True t w1 = (t2, w2)"
  shows "replay_ready a (Suc i) delay t2 w2
         \<and> (\<exists>ext. recording (heap w2 a) = recording (heap w a) @ ext)"
proof -
  let ?es = "recording (heap w a)"
  note eff = Terminal_write_effect [OF tw]
  from r have so: "sorted (map snd ?es)" by (simp add: replay_ready_def)
  have di: "delay = snd (?es ! i)" using e by simp
  have later: "delay \<le> snd (?es ! j)" if "Suc i \<le> j" "j < length ?es" for j
  proof -
    have "map snd ?es ! i \<le> map snd ?es ! j"
      using so that i by (intro sorted_nth_mono) simp_all
    then show ?thesis using di that i by simp
  qed
  show ?thesis
  proof (cases "recorder t = Some a")
    case False
    then have h2: "heap w2 a = heap w a" using eff(4) [of a] h by simp
    have "replay_ready a (Suc i) delay t2 w2"
      using False so later eff(1) h2 by (simp add: replay_ready_def)
    then show ?thesis using h2 by simp
  next
    case True
    let ?now = "clock w1 - start_stamp (heap w a)"
    have st: "\<forall>x\<in>set ?es. snd x \<le> clock w - start_stamp (heap w a)"
      using r True by (simp add: replay_ready_def stamps_behind_clock_def list_all_iff)
    then have st1: "\<forall>x\<in>set ?es. snd x \<le> ?now" using c by fastforce
    have h2: "recording (heap w2 a) = ?es @ [(data, ?now)]"
      and ss: "start_stamp (heap w2 a) = start_stamp (heap w a)"
      using True eff(4) [of a] h by (simp_all add: Recorder_write_def)
    have so2: "sorted (map snd (recording (heap w2 a)))"
      using so st1 by (simp add: h2 sorted_append)
    have d1: "delay \<le> ?now" using st1 i di by (metis nth_mem)
    have later2: "delay \<le> snd (recording (heap w2 a) ! j)"
      if "Suc i \<le> j" "j < length (recording (heap w2 a))" for j
    proof (cases "j < length ?es")
      case True
      then show ?thesis using later [OF that(1)] by (simp add: h2 nth_append)
    next
      case False
      then have "j = length ?es" using that(2) by (simp add: h2)
      then show ?thesis using d1 by (simp add: h2)
    qed
    have sb: "stamps_behind_clock w2 a"
      using st1 by (simp add: stamps_behind_clock_def list_all_iff h2 ss eff(3))
    have "replay_ready a (Suc i) delay t2 w2"
      using so2 later2 sb by (simp add: replay_ready_def)
    then show ?thesis using h2 by simp
  qed
qed

lemma replay_fuel_safe:
  assumes "replay_ready a i last_time t w"
  shows "\<exists>evs ext k.
           trace (snd (snd (replay_fuel n rl a i last_time t w))) = trace w @ evs
           \<and> recording (heap (snd (snd (replay_fuel n rl a i last_time t w))) a)
               = recording (heap w a) @ ext
           \<and> sleeps_of evs
               = gaps last_time
                   (map snd (take k (drop i
                      (recording (heap (snd (snd (replay_fuel n rl a i last_time t w))) a)))))
           \<and> list_all (\<lambda>d. 0 \<le> d) (sleeps_of evs)
           \<and> fst (replay_fuel n rl a i last_time t w) \<noteq> Some (Inl ValueError)"
  using assms
proof (induction n arbitrary: i last_time t w)
  case 0
  show ?case
    by (rule exI [of _ "[]"], rule exI [of _ "[]"], rule exI [of _ 0]) simp
next
  case (Suc n)
  let ?es = "recording (heap w a)"
  show ?case
  proof (cases "i < length ?es")
    case False
    then have u: "replay_fuel (Suc n) rl a i last_time t w = (Some (Inr ()), t, w)" by simp
    show ?thesis
      unfolding u by (rule exI [of _ "[]"], rule exI [of _ "[]"], rule exI [of _ 0]) simp
  next
    case True
    obtain data delay where e: "?es ! i = (data, delay)" by (cases "?es ! i")
    define pre where "pre = (if last_time > 0 then [Sleep (delay - last_time)] else [])"
    have nonneg: "last_time > 0 \<Longrightarrow> 0 \<le> delay - last_time"
    proof -
      assume p: "last_time > 0"
      have "last_time \<le> snd (?es ! i)"
        using Suc.prems p True by (simp add: replay_ready_def)
      then show ?thesis using e by simp
    qed
    obtain w1 where s: "(if last_time > 0 then time_sleep (delay - last_time) w else (Inr (), w))
                          = (Inr (), w1)"
      and tr1: "trace w1 = trace w @ pre" and h1: "heap w1 = heap w" and c1: "clock w \<le> clock w1"
    proof (cases "last_time > 0")
      case False
      then show ?thesis using that [of w] by (simp add: pre_def)
    next
      case True
      then show ?thesis
        using that [of "(emit [Sleep (delay - last_time)] w)\<lparr>clock := clock w + (delay - last_time)\<rparr>"]
          nonneg
        by (simp add: pre_def time_sleep_def emit_def)
    qed
    obtain t2 w2 where tw: "Terminal_write rl data None True t w1 = (t2, w2)"
      by (cases "Terminal_write rl data None True t w1")
    note eff = Terminal_write_effect [OF tw]
    from replay_step_ready [OF Suc.prems True e c1 h1 tw]
    obtain ext1 where r2: "replay_ready a (Suc i) delay t2 w2"
      and x1: "recording (heap w2 a) = ?es @ ext1"
      by blast
    let ?R = "replay_fuel n rl a (Suc i) delay t2 w2"
    let ?w' = "snd (snd ?R)"
    from Suc.IH [OF r2]
    obtain evs2 ext2 k2 where tr2: "trace ?w' = trace w2 @ evs2"
      and x2: "recording (heap ?w' a) = recording (heap w2 a) @ ext2"
      and sl2: "sleeps_of evs2 = gaps delay (map snd (take k2 (drop (Suc i) (recording (heap ?w' a)))))"
      and nn2: "list_all (\<lambda>d. 0 \<le> d) (sleeps_of evs2)"
      and ok2: "fst ?R \<noteq> Some (Inl ValueError)"
      by blast
    have unfold: "replay_fuel (Suc n) rl a i last_time t w = ?R"
      using True e s tw by simp
    let ?es' = "recording (heap ?w' a)"
    have es': "?es' = ?es @ (ext1 @ ext2)" using x1 x2 by simp
    have nth: "?es' ! i = (data, delay)" using es' True e by (simp add: nth_append)
    have len: "i < length ?es'" using es' True by simp
    have tk: "take (Suc k2) (drop i ?es') = (data, delay) # take k2 (drop (Suc i) ?es')"
      using len nth by (simp add: Cons_nth_drop_Suc [symmetric])
    let ?evs = "pre @ write_events data @ evs2"
    have a1: "trace ?w' = trace w @ ?evs" using tr2 eff(2) tr1 by simp
    have a3: "sleeps_of ?evs = gaps last_time (map snd (take (Suc k2) (drop i ?es')))"
      unfolding tk using sl2
      by (simp add: sleeps_of_append sleeps_of_write_events pre_def)
    have a4: "list_all (\<lambda>d. 0 \<le> d) (sleeps_of ?evs)"
      using nn2 nonneg by (simp add: sleeps_of_append sleeps_of_write_events pre_def)
    show ?thesis
      unfolding unfold using a1 es' a3 a4 ok2 by blast
  qed
qed

text \<open>
  The operations of the source keep the stamps of every Recorder behind the clock: a new
  Recorder has no entry, a sleep only advances the clock, and a write stamps the entry it
  adds with the clock.
\<close>

lemma stamps_new_recorder:
  "recording (heap w a) = [] \<Longrightarrow> stamps_behind_clock w a"
  by (simp add: stamps_behind_clock_def)

lemma stamps_time_sleep:
  assumes "stamps_behind_clock w a" and "time_sleep d w = (Inr u, w1)"
  shows "stamps_behind_clock w1 a"
proof -
  from assms(2) have "0 \<le> d" "heap w1 = heap w" "clock w1 = clock w + d"
    by (auto simp add: time_sleep_def emit_def split: if_splits)
  then show ?thesis
    using assms(1) by (fastforce simp add: stamps_behind_clock_def list_all_iff)
qed

lemma stamps_Terminal_write:
  assumes "stamps_behind_clock w a" and "Terminal_write rl data pos flush t w = (t2, w2)"
  shows "stamps_behind_clock w2 a"
proof -
  from assms(2) have c: "clock w2 = clock w"
    by (auto simp add: Terminal_write_def Let_def emit_def clear_stream_def
        split: option.splits if_splits)
  from assms(2) have s: "start_stamp (heap w2 a) = start_stamp (heap w a)"
    by (auto simp add: Terminal_write_def Let_def emit_def clear_stream_def Recorder_write_def
        split: option.splits if_splits)
  from assms(2) have r: "recording (heap w2 a) = recording (heap w a)
      \<or> (\<exists>d. recording (heap w2 a)
                = recording (heap w a) @ [(d, clock w - start_stamp (heap w a))])"
    by (auto simp add: Terminal_write_def Let_def emit_def clear_stream_def Recorder_write_def
        split: option.splits if_splits)
  show ?thesis
    using assms(1) r by (auto simp add: stamps_behind_clock_def c s)
qed

text \<open>
  C10. For a Recorder whose elapsed times do not decrease, \<^verbatim>\<open>replay\<close> never calls
  \<^verbatim>\<open>sleep\<close> with a negative duration, however many steps it has made and also when it
  never ends: the durations it sleeps are, in order, the differences between an entry and
  the entry before it for the entries whose predecessor has a positive elapsed time (so
  there is none for the first entry), and each of them is at least 0. This covers the
  replay of the Recorder that the Terminal is recording into, whose list grows during the
  replay, given that none of its stamps is ahead of the clock, as is the case for every
  entry that \<^verbatim>\<open>Recorder.write\<close> makes.
\<close>

theorem replay_never_sleeps_negative:
  assumes "sorted (map snd (recording (heap w a)))"
    and "recorder t = Some a \<longrightarrow> stamps_behind_clock w a"
  shows "(\<exists>evs k.
            trace (replay_prefix n rl a t w) = trace w @ evs
            \<and> sleeps_of evs
                = gaps 0 (map snd (take k (recording (heap (replay_prefix n rl a t w) a))))
            \<and> list_all (\<lambda>d. 0 \<le> d) (sleeps_of evs))
         \<and> (\<forall>r t' w'. replay rl a t w = Some (r, t', w') \<longrightarrow>
              (\<exists>evs k.
                 trace w' = trace w @ evs
                 \<and> sleeps_of evs = gaps 0 (map snd (take k (recording (heap w' a))))
                 \<and> list_all (\<lambda>d. 0 \<le> d) (sleeps_of evs)))"
proof -
  have ready: "replay_ready a 0 0 t w" using assms by (simp add: replay_ready_def)
  have pre: "\<exists>evs k.
            trace (snd (snd (replay_fuel m rl a 0 0 t w))) = trace w @ evs
            \<and> sleeps_of evs
                = gaps 0 (map snd (take k (recording (heap (snd (snd (replay_fuel m rl a 0 0 t w))) a))))
            \<and> list_all (\<lambda>d. 0 \<le> d) (sleeps_of evs)" for m
    using replay_fuel_safe [OF ready, of m rl] by (simp only: drop_0) blast
  have ret: "\<exists>evs k.
                 trace w' = trace w @ evs
                 \<and> sleeps_of evs = gaps 0 (map snd (take k (recording (heap w' a))))
                 \<and> list_all (\<lambda>d. 0 \<le> d) (sleeps_of evs)"
    if "replay rl a t w = Some (r, t', w')" for r t' w'
  proof -
    from that obtain m where "replay_fuel m rl a 0 0 t w = (Some r, t', w')"
      using replay_loop_fuel [of rl a 0 0 t w "(r, t', w')"] by (auto simp add: replay_def)
    then have "snd (snd (replay_fuel m rl a 0 0 t w)) = w'" by simp
    then show ?thesis using pre [of m] by simp
  qed
  show ?thesis using pre [of n] ret by (simp add: replay_prefix_def)
qed

lemma late_sleeps:
  "sleeps_of (drop (length (trace late_world))
       (trace (replay_prefix 3 char_count 0 recording_terminal late_world))) = [2, 2]"
  by (simp add: replay_prefix_def eval_nat_numeral late_world_def fresh_world_def
      recording_terminal_def idle_terminal_def Terminal_write_def time_sleep_def emit_def
      Recorder_write_def Let_def position_prefix_def ESC_def clear_stream_def)

theorem replay_never_sleeps_negative_witness:
  "sorted (map snd (recording (heap late_world 0)))
   \<and> recorder recording_terminal = Some 0
   \<and> stamps_behind_clock late_world 0
   \<and> sleeps_of (drop (length (trace late_world))
         (trace (replay_prefix 3 char_count 0 recording_terminal late_world))) = [2, 2]
   \<and> list_all (\<lambda>d. 0 \<le> d)
        (sleeps_of (drop (length (trace late_world))
           (trace (replay_prefix 3 char_count 0 recording_terminal late_world))))"
proof -
  have s: "sorted (map snd (recording (heap late_world 0)))"
    by (simp add: late_world_def fresh_world_def)
  have r: "recorder recording_terminal = Some 0"
    by (simp add: recording_terminal_def)
  have b: "stamps_behind_clock late_world 0"
    by (simp add: stamps_behind_clock_def late_world_def fresh_world_def)
  then have h: "recorder recording_terminal = Some 0 \<longrightarrow> stamps_behind_clock late_world 0"
    by simp
  from replay_never_sleeps_negative [OF s h, of 3 char_count]
  obtain evs where e: "trace (replay_prefix 3 char_count 0 recording_terminal late_world)
                         = trace late_world @ evs"
    and n: "list_all (\<lambda>d. 0 \<le> d) (sleeps_of evs)"
    by blast
  have "drop (length (trace late_world))
          (trace (replay_prefix 3 char_count 0 recording_terminal late_world)) = evs"
    using e by simp
  then show ?thesis using s r b n late_sleeps by simp
qed


section \<open>Properties: pixel size\<close>

lemma get_pixel_size_not_interactive:
  "\<not> stdout_isatty w \<Longrightarrow> get_pixel_size getch w = (Inr (0, 0), w)"
  by (simp add: get_pixel_size_def)

lemma get_pixel_size_no_separator:
  "stdout_isatty w \<Longrightarrow> CHR '';'' \<notin> set (drop 4 (butlast getch))
     \<Longrightarrow> fst (get_pixel_size getch w) = Inr (0, 0)"
  by (simp add: get_pixel_size_def Let_def)

lemma int_strip_digits: "list_all is_digit ds \<Longrightarrow> int_strip ds = ds"
proof -
  assume a: "list_all is_digit ds"
  have n: "is_digit c \<Longrightarrow> \<not> int_isspace c" for c
    by (auto simp add: is_digit_def int_isspace_def)
  have d: "list_all is_digit xs \<Longrightarrow> dropWhile int_isspace xs = xs" for xs
    by (cases xs) (simp_all add: n)
  have "list_all is_digit (rev ds)" using a by (simp add: list_all_iff)
  then show ?thesis using a by (simp add: int_strip_def d)
qed

lemma digits_ok_digits: "list_all is_digit ds \<Longrightarrow> digits_ok p ds = (p \<or> ds \<noteq> [])"
  by (induction ds arbitrary: p) auto

lemma py_int_digits:
  assumes "list_all is_digit ds" and "ds \<noteq> []" and "length ds \<le> max_str_digits"
  shows "py_int ds = Inr (int (digits_value ds))"
proof -
  obtain c cs where ds: "ds = c # cs" using assms(2) by (cases ds) auto
  have c: "is_digit c" using assms(1) ds by simp
  then have sg: "c \<noteq> CHR ''-''" "c \<noteq> CHR ''+''" by (auto simp add: is_digit_def)
  have f: "filter is_digit ds = ds" using assms(1) by (simp add: list_all_iff)
  have "parse_digits ds = Inr (digits_value ds)"
    using digits_ok_digits [OF assms(1), of False] assms(2,3) f by (simp add: parse_digits_def)
  then show ?thesis
    using int_strip_digits [OF assms(1)] ds sg by (simp add: py_int_def)
qed

lemma split_on_none: "sep \<notin> set s \<Longrightarrow> split_on sep s = [s]"
  by (induction s) auto

lemma split_on_one: "sep \<notin> set a \<Longrightarrow> sep \<notin> set b \<Longrightarrow> split_on sep (a @ sep # b) = [a, b]"
  by (induction a) (auto simp add: split_on_none)

lemma get_pixel_size_well_formed:
  assumes "stdout_isatty w" and "list_all is_digit h" and "h \<noteq> []"
    and "list_all is_digit wd" and "wd \<noteq> []"
    and "length h \<le> max_str_digits" and "length wd \<le> max_str_digits"
  shows "fst (get_pixel_size (ESC # ''[4;'' @ h @ '';'' @ wd @ ''t'') w)
           = Inr (int (digits_value wd), int (digits_value h))"
proof -
  have nd: "\<not> is_digit (CHR '';'')" by (simp add: is_digit_def)
  have nh: "CHR '';'' \<notin> set h" using assms(2) nd by (auto simp add: list_all_iff)
  have nw: "CHR '';'' \<notin> set wd" using assms(4) nd by (auto simp add: list_all_iff)
  have b: "butlast (ESC # ''[4;'' @ h @ '';'' @ wd @ ''t'') = ESC # ''[4;'' @ h @ '';'' @ wd"
    by (simp add: butlast_append)
  have o: "drop 4 (butlast (ESC # ''[4;'' @ h @ '';'' @ wd @ ''t'')) = h @ CHR '';'' # wd"
    unfolding b by simp
  show ?thesis
    unfolding get_pixel_size_def o
    using assms(1) split_on_one [OF nh nw] py_int_digits [OF assms(2,3,6)]
      py_int_digits [OF assms(4,5,7)]
    by (simp add: Let_def)
qed

text \<open>
  C5 does not hold of the code. On an interactive output, a response with a separator
  whose fields are not integers makes \<^verbatim>\<open>int\<close> raise \<^verbatim>\<open>ValueError\<close>, which leaves
  \<^verbatim>\<open>_get_pixel_size\<close>. (The lemmas above are the cases in which the claim holds.)
\<close>

theorem get_pixel_size_malformed_raises:
  "fst (get_pixel_size (ESC # ''[4;abc;deft'') (fresh_world Map.empty True)) = Inl ValueError"
  by (simp add: get_pixel_size_def fresh_world_def Let_def py_int_def int_strip_def
      int_isspace_def parse_digits_def is_digit_def)

lemma get_pixel_size_example:
  "fst (get_pixel_size (ESC # ''[4;600;800t'') (fresh_world Map.empty True)) = Inr (800, 600)"
  by (simp add: get_pixel_size_def fresh_world_def Let_def py_int_def int_strip_def
      int_isspace_def parse_digits_def max_str_digits_def is_digit_def digits_value_def
      digit_val_def)


section \<open>Properties: highlighter\<close>

lemma make_match_lastgroup:
  "m_lastgroup (make_match p st) = Some n \<Longrightarrow> n \<in> set (map fst (groupindex p))"
proof -
  assume a: "m_lastgroup (make_match p st) = Some n"
  obtain rest caps li where st: "st = (rest, caps, li)" by (cases st)
  from a st obtain i where "map_of (map (\<lambda>(n, i). (i, n)) (groupindex p)) i = Some n"
    by (auto simp add: make_match_def split: option.splits)
  then have "(i, n) \<in> set (map (\<lambda>(n, i). (i, n)) (groupindex p))"
    by (rule map_of_SomeD)
  then show ?thesis by force
qed

lemma match_at_lastgroup:
  "match_at p s adv = Some (m, rest) \<Longrightarrow> m_lastgroup m = Some n
     \<Longrightarrow> n \<in> set (map fst (groupindex p))"
  by (auto simp add: match_at_def split: list.splits dest: make_match_lastgroup)

lemma insert_style_other_style:
  "m_lastgroup m \<noteq> Some ''str'' \<Longrightarrow> insert_style mk pre m = insert_style mk' pre m"
  by (simp add: insert_style_def Let_def)

lemma re_sub_cong:
  assumes "\<And>s adv m rest. match_at p s adv = Some (m, rest) \<Longrightarrow> f m = g m"
  shows "re_sub p f s adv = re_sub p g s adv"
proof (induction "2 * length s + (if adv then 0 else 1)" arbitrary: s adv rule: less_induct)
  case less
  note ef = re_sub.simps [of p f s adv]
  note eg = re_sub.simps [of p g s adv]
  show ?case
  proof (cases "match_at p s adv")
    case None
    show ?thesis
    proof (cases s)
      case Nil
      then show ?thesis unfolding ef eg using None by simp
    next
      case (Cons c cs)
      have "re_sub p f cs False = re_sub p g cs False"
        by (rule less) (simp add: Cons)
      then show ?thesis unfolding ef eg using None Cons by simp
    qed
  next
    case (Some a)
    obtain m rest where a: "a = (m, rest)" by (cases a)
    have fg: "f m = g m" using assms Some a by simp
    have short: "length rest < length s \<Longrightarrow> re_sub p f rest False = re_sub p g rest False"
      by (rule less) simp
    have same: "\<not> adv \<Longrightarrow> re_sub p f s True = re_sub p g s True"
      by (rule less) simp
    show ?thesis
      unfolding ef eg using Some a fg short same
      by (simp split: sum.splits)
  qed
qed


lemma highlight_text_other_styles:
  assumes "''str'' \<notin> set (map fst (groupindex (pattern_of h)))"
  shows "highlight_text mk h text = highlight_text mk' h text"
  unfolding highlight_text_def
proof (rule re_sub_cong)
  fix s adv m rest
  assume "match_at (pattern_of h) s adv = Some (m, rest)"
  then have "m_lastgroup m \<noteq> Some ''str''"
    using match_at_lastgroup assms by blast
  then show "insert_style mk (prefix h) m = insert_style mk' (prefix h) m"
    by (rule insert_style_other_style)
qed

lemma init_example:
  "RegexHighlighter_init [(''num'', BSLASH # ''d+''), (''word'', ''[a-z]+'')] ''x.''
     = Inr example_highlighter"
proof -
  have "re_compile (combined_pattern example_styles) = Inr (pattern_of example_highlighter)"
    unfolding example_highlighter_def by code_simp
  then show ?thesis
    by (simp add: RegexHighlighter_init_def example_highlighter_def example_styles_def)
qed

lemma example_text:
  "highlight_text markup_tags example_highlighter ''ab12''
     = Inr ''[x.word]ab[/x.word][x.num]12[/x.num]''"
  by code_simp

text \<open>
  C7. The styles num, for one or more digits, and word, for one or more lower-case
  letters, with the prefix \<^verbatim>\<open>x.\<close> construct a highlighter, and calling it on \<^verbatim>\<open>ab12\<close>
  returns \<^verbatim>\<open>[x.word]ab[/x.word][x.num]12[/x.num]\<close>, whatever \<^verbatim>\<open>RE_MARKUP\<close> finds and whatever
  the \<^verbatim>\<open>cache\<close> flag.
\<close>

theorem highlight_example:
  "\<exists>h. RegexHighlighter_init [(''num'', BSLASH # ''d+''), (''word'', ''[a-z]+'')] ''x.'' = Inr h
       \<and> fst (RegexHighlighter_call mk h ''ab12'' cache)
           = Inr ''[x.word]ab[/x.word][x.num]12[/x.num]''"
proof -
  have n: "''str'' \<notin> set (map fst (groupindex (pattern_of example_highlighter)))"
    by (simp add: example_highlighter_def)
  have t: "highlight_text mk example_highlighter ''ab12''
             = Inr ''[x.word]ab[/x.word][x.num]12[/x.num]''"
    using highlight_text_other_styles [OF n, of mk "''ab12''" markup_tags] example_text by simp
  have c: "highlight_cache example_highlighter ''ab12'' = None"
    by (simp add: example_highlighter_def)
  have "fst (RegexHighlighter_call mk example_highlighter ''ab12'' cache)
          = Inr ''[x.word]ab[/x.word][x.num]12[/x.num]''"
    by (simp add: RegexHighlighter_call_def t c)
  then show ?thesis using init_example by blast
qed

lemma call_pattern [simp]:
  "pattern_of (snd (RegexHighlighter_call mk h text c)) = pattern_of h"
  by (simp add: RegexHighlighter_call_def split: option.splits sum.splits)

lemma call_prefix [simp]:
  "prefix (snd (RegexHighlighter_call mk h text c)) = prefix h"
  by (simp add: RegexHighlighter_call_def split: option.splits sum.splits)

lemma highlight_text_call [simp]:
  "highlight_text mk (snd (RegexHighlighter_call mk' h text c)) t = highlight_text mk h t"
  by (simp add: highlight_text_def)

lemma call_miss:
  assumes "\<not> c \<or> highlight_cache h text = None" and "highlight_text mk h text = Inr out"
  shows "RegexHighlighter_call mk h text c
           = (Inr out, h\<lparr>highlight_cache := (highlight_cache h)(text \<mapsto> out)\<rparr>)"
  using assms by (auto simp add: RegexHighlighter_call_def)

lemma call_hit:
  assumes "highlight_cache h text = Some out"
  shows "RegexHighlighter_call mk h text True = (Inr out, h)"
  using assms by (simp add: RegexHighlighter_call_def)

lemma call_cache:
  "highlight_cache (snd (RegexHighlighter_call mk h text c)) k =
     (if k = text \<and> (\<not> c \<or> highlight_cache h text = None)
      then (case highlight_text mk h text of Inl e \<Rightarrow> highlight_cache h k | Inr out \<Rightarrow> Some out)
      else highlight_cache h k)"
  by (auto simp add: RegexHighlighter_call_def split: option.splits sum.splits)

lemma call_consistent:
  assumes "cache_consistent mk h"
  shows "cache_consistent mk (snd (RegexHighlighter_call mk h text c))"
proof -
  have "highlight_text mk h k = Inr out"
    if "highlight_cache (snd (RegexHighlighter_call mk h text c)) k = Some out" for k out
  proof (cases "k = text \<and> (\<not> c \<or> highlight_cache h text = None)")
    case False
    then have "highlight_cache h k = Some out" using that by (auto simp add: call_cache)
    then show ?thesis using assms by (simp add: cache_consistent_def)
  next
    case True
    show ?thesis
    proof (cases "highlight_text mk h text")
      case (Inl e)
      then have "highlight_cache h k = Some out" using that True by (simp add: call_cache)
      then show ?thesis using assms by (simp add: cache_consistent_def)
    next
      case (Inr v)
      then show ?thesis using that True by (simp add: call_cache)
    qed
  qed
  then show ?thesis by (simp add: cache_consistent_def)
qed

lemma calls_consistent:
  "cache_consistent mk h \<Longrightarrow> cache_consistent mk (calls mk h cs)"
proof (induction cs arbitrary: h)
  case Nil
  then show ?case by simp
next
  case (Cons x cs)
  obtain t c where x: "x = (t, c)" by (cases x)
  show ?case using Cons.IH [OF call_consistent [OF Cons.prems, of t c]] by (simp add: x)
qed

lemma init_consistent:
  "RegexHighlighter_init sts pre = Inr h \<Longrightarrow> cache_consistent mk h"
  by (auto simp add: RegexHighlighter_init_def cache_consistent_def split: sum.splits)

lemma call_keeps_entry:
  assumes "cache_consistent mk h" and "highlight_cache h text = Some out"
  shows "highlight_cache (snd (RegexHighlighter_call mk h t c)) text = Some out"
  using assms unfolding cache_consistent_def
  by (auto simp add: call_cache split: sum.splits)

lemma calls_keep_entry:
  "cache_consistent mk h \<Longrightarrow> highlight_cache h text = Some out
     \<Longrightarrow> highlight_cache (calls mk h cs) text = Some out"
proof (induction cs arbitrary: h)
  case Nil
  then show ?case by simp
next
  case (Cons x cs)
  obtain t c where x: "x = (t, c)" by (cases x)
  show ?case
    using Cons.IH [OF call_consistent [OF Cons.prems(1), of t c]
                      call_keeps_entry [OF Cons.prems, of t c]]
    by (simp add: x)
qed

lemma call_result_cached:
  assumes "fst (RegexHighlighter_call mk h text c) = Inr out"
  shows "highlight_cache (snd (RegexHighlighter_call mk h text c)) text = Some out"
  using assms
  by (auto simp add: RegexHighlighter_call_def split: option.splits sum.splits if_splits)

text \<open>
  C8. For a highlighter as constructed and then called any number of times: every entry
  of its cache is what a call without the cache computes for the key; a call that does
  not answer from the cache, because \<^verbatim>\<open>cache\<close> is false or the text is no key, stores what
  it computes under the text and returns it; and once a call on a text has returned a
  string, a later call on that text with \<^verbatim>\<open>cache\<close> true returns the same string.
\<close>

theorem cache_invariant:
  assumes "RegexHighlighter_init sts pre = Inr h0" and "h = calls mk h0 cs"
  shows "cache_consistent mk h
    \<and> (\<forall>text cache out.
          (\<not> cache \<or> highlight_cache h text = None) \<longrightarrow> highlight_text mk h text = Inr out \<longrightarrow>
          RegexHighlighter_call mk h text cache
            = (Inr out, h\<lparr>highlight_cache := (highlight_cache h)(text \<mapsto> out)\<rparr>))
    \<and> (\<forall>text cache out later.
          fst (RegexHighlighter_call mk h text cache) = Inr out \<longrightarrow>
          fst (RegexHighlighter_call mk
                 (calls mk (snd (RegexHighlighter_call mk h text cache)) later) text True)
            = Inr out)"
proof -
  have con: "cache_consistent mk h"
    using calls_consistent [OF init_consistent [OF assms(1)], of mk cs] assms(2) by simp
  have later: "fst (RegexHighlighter_call mk
                 (calls mk (snd (RegexHighlighter_call mk h text cache)) later) text True)
            = Inr out"
    if r: "fst (RegexHighlighter_call mk h text cache) = Inr out" for "text" cache out later
  proof -
    have "highlight_cache (calls mk (snd (RegexHighlighter_call mk h text cache)) later) text = Some out"
      using calls_keep_entry [OF call_consistent [OF con] call_result_cached [OF r]] .
    then show ?thesis by (simp add: call_hit)
  qed
  show ?thesis using con call_miss later by blast
qed

lemma no_entry_example: "highlight_cache example_highlighter ''ab12'' = None"
  by (simp add: example_highlighter_def)

theorem cache_invariant_witness:
  "RegexHighlighter_init [(''num'', BSLASH # ''d+''), (''word'', ''[a-z]+'')] ''x.''
     = Inr example_highlighter
   \<and> example_highlighter = calls markup_tags example_highlighter []
   \<and> highlight_text markup_tags example_highlighter ''ab12''
       = Inr ''[x.word]ab[/x.word][x.num]12[/x.num]''
   \<and> highlight_cache (snd (RegexHighlighter_call markup_tags example_highlighter ''ab12'' False)) ''ab12''
       = Some ''[x.word]ab[/x.word][x.num]12[/x.num]''
   \<and> fst (RegexHighlighter_call markup_tags
            (calls markup_tags (snd (RegexHighlighter_call markup_tags example_highlighter ''ab12'' False))
               [(''q7'', True)]) ''ab12'' True)
       = Inr ''[x.word]ab[/x.word][x.num]12[/x.num]''"
proof -
  have c: "example_highlighter = calls markup_tags example_highlighter []" by simp
  note inv = cache_invariant [OF init_example c]
  have miss: "RegexHighlighter_call markup_tags example_highlighter ''ab12'' False
            = (Inr ''[x.word]ab[/x.word][x.num]12[/x.num]'',
               example_highlighter\<lparr>highlight_cache :=
                 (highlight_cache example_highlighter)(''ab12'' \<mapsto> ''[x.word]ab[/x.word][x.num]12[/x.num]'')\<rparr>)"
    using inv example_text by blast
  have r: "fst (RegexHighlighter_call markup_tags example_highlighter ''ab12'' False)
             = Inr ''[x.word]ab[/x.word][x.num]12[/x.num]''"
    using miss by simp
  have l: "fst (RegexHighlighter_call markup_tags
            (calls markup_tags (snd (RegexHighlighter_call markup_tags example_highlighter ''ab12'' False))
               [(''q7'', True)]) ''ab12'' True)
       = Inr ''[x.word]ab[/x.word][x.num]12[/x.num]''"
    using inv r by blast
  show ?thesis using init_example c example_text miss l by simp
qed

lemma match_at_advances:
  "match_at p s True = Some (m, rest) \<Longrightarrow> length rest < length s"
proof -
  assume a: "match_at p s True = Some (m, rest)"
  let ?f = "filter (\<lambda>st. \<not> True \<or> length (fst st) < length s) (rmatch (pattern_regex p) (s, [], None))"
  from a obtain st sts where f: "?f = st # sts" and r: "rest = fst st"
    by (auto simp add: match_at_def split: list.splits)
  have "st \<in> set ?f" using f by simp
  then show ?thesis using r by simp
qed

definition closed_last :: "mstate \<Rightarrow> bool" where
  "closed_last st = (case st of (rest, caps, li) \<Rightarrow> (case li of None \<Rightarrow> True | Some i \<Rightarrow> map_of caps i \<noteq> None))"

lemma one_char_keeps:
  "st' \<in> set (one_char r st) \<Longrightarrow> snd st' = snd st"
  by (cases st; cases "fst st") (auto simp add: one_char_def split: if_splits)

lemma closed_last_snd: "snd st' = snd st \<Longrightarrow> closed_last st' = closed_last st"
  by (cases st; cases st') (simp add: closed_last_def)

lemma rmatch_closed_last:
  "closed_last st \<Longrightarrow> st' \<in> set (rmatch r st) \<Longrightarrow> closed_last st'"
proof (induction r st arbitrary: st' rule: rmatch.induct)
  case (1 st)
  then show ?case by simp
next
  case (2 c st)
  then show ?case using closed_last_snd [OF one_char_keeps] by auto
next
  case (3 st)
  then show ?case using closed_last_snd [OF one_char_keeps] by auto
next
  case (4 neg items st)
  then show ?case using closed_last_snd [OF one_char_keeps] by auto
next
  case (5 r1 r2 st)
  from "5.prems"(2) obtain m where m: "m \<in> set (rmatch r1 st)" "st' \<in> set (rmatch r2 m)"
    by auto
  show ?case using "5.IH"(2) [OF m(1) "5.IH"(1) [OF "5.prems"(1) m(1)] m(2)] .
next
  case (6 r1 r2 st)
  from "6.prems"(2) have "st' \<in> set (rmatch r1 st) \<or> st' \<in> set (rmatch r2 st)" by simp
  then show ?case using "6.IH" "6.prems"(1) by blast
next
  case (7 r st)
  from 7(4) [unfolded rmatch.simps(7) [of r st]] consider "st' = st"
    | m where "m \<in> set (rmatch r st)" "length (fst m) < length (fst st)" "st' \<in> set (rmatch (Star r) m)"
    | "st' \<in> set (rmatch r st)" "\<not> length (fst st') < length (fst st)"
    by (auto split: if_splits)
  then show ?case
  proof cases
    case 1
    then show ?thesis using 7(3) by simp
  next
    case 2
    then show ?thesis using 7(1) [OF 7(3) 2(1)] 7(2) [OF 2(1) 2(2) _ 2(3)] by simp
  next
    case 3
    then show ?thesis using 7(1) [OF 7(3)] by simp
  qed
next
  case (8 r st)
  from 8(4) consider
      m where "m \<in> set (rmatch r st)" "length (fst m) < length (fst st)" "st' \<in> set (rmatch (Star r) m)"
    | "st' \<in> set (rmatch r st)" "\<not> length (fst st') < length (fst st)"
    by (auto split: if_splits)
  then show ?case
  proof cases
    case 1
    then show ?thesis using 8(1) [OF 8(3) 1(1)] 8(2) [OF 1(1) 1(2) _ 1(3)] by simp
  next
    case 2
    then show ?thesis using 8(1) [OF 8(3)] by simp
  qed
next
  case (9 r st)
  from "9.prems"(2) have "st' \<in> set (rmatch r st) \<or> st' = st" by auto
  then show ?case using "9.IH" "9.prems"(1) by blast
next
  case (10 i r st)
  from "10.prems"(2) obtain m where "st' = close_group i st m" by auto
  then show ?case by (cases m) (simp add: close_group_def closed_last_def)
qed


lemma map_of_map_distinct:
  "distinct (map fst xs) \<Longrightarrow> (k, v) \<in> set xs
     \<Longrightarrow> map_of (map (\<lambda>(n, i). (n, f i)) xs) k = Some (f v)"
  by (induction xs) (auto simp add: rev_image_eqI)

lemma match_at_content:
  assumes "distinct (map fst (groupindex p))"
    and "match_at p s adv = Some (m, rest)"
    and "m_lastgroup m = Some name"
  shows "\<exists>content. map_of (m_groupdict m) name = Some (Some content)"
proof -
  from assms(2) obtain st where st: "st \<in> set (rmatch (pattern_regex p) (s, [], None))"
    and m: "m = make_match p st"
  proof -
    let ?f = "filter (\<lambda>st. \<not> adv \<or> length (fst st) < length s)
                (rmatch (pattern_regex p) (s, [], None))"
    from assms(2) obtain st sts where f: "?f = st # sts" and mm: "m = make_match p st"
      by (auto simp add: match_at_def split: list.splits)
    have "st \<in> set ?f" using f by simp
    then have "st \<in> set (rmatch (pattern_regex p) (s, [], None))" by simp
    then show ?thesis using mm that by blast
  qed
  have "closed_last (s, [], None)" by (simp add: closed_last_def)
  then have c: "closed_last st" using st by (rule rmatch_closed_last)
  obtain rest' caps li where s3: "st = (rest', caps, li)" by (cases st)
  from assms(3) m s3 obtain i where li: "li = Some i"
    and n: "map_of (map (\<lambda>(n, i). (i, n)) (groupindex p)) i = Some name"
    by (auto simp add: make_match_def split: option.splits)
  from n have mem: "(name, i) \<in> set (groupindex p)"
    using map_of_SomeD by fastforce
  have gd: "map_of (map (\<lambda>(n, i). (n, map_of caps i)) (groupindex p)) name = Some (map_of caps i)"
    using assms(1) mem by (rule map_of_map_distinct)
  from c li s3 obtain content where "map_of caps i = Some content"
    by (auto simp add: closed_last_def)
  then show ?thesis using gd m s3 by (simp add: make_match_def)
qed



lemma push_item_names: "push_item r p = Inr p' \<Longrightarrow> names p' = names p"
  by (auto simp add: push_item_def split: list.splits frame.splits)

lemma quantify_names: "quantify q p = Inr p' \<Longrightarrow> names p' = names p"
  by (auto simp add: quantify_def split: list.splits frame.splits if_splits)

lemma close_frame_names: "close_frame p = Inr p' \<Longrightarrow> names p' = names p"
  by (auto simp add: close_frame_def split: list.splits frame.splits dest!: push_item_names)

lemma next_alternative_names: "next_alternative p = Inr p' \<Longrightarrow> names p' = names p"
  by (auto simp add: next_alternative_def split: list.splits frame.splits)

lemma normal_step_names: "normal_step p c = Inr p' \<Longrightarrow> names p' = names p"
  by (auto simp add: normal_step_def split: if_splits
      dest: push_item_names quantify_names close_frame_names next_alternative_names)

lemma escape_step_names: "escape_step p c = Inr p' \<Longrightarrow> names p' = names p"
  by (auto simp add: escape_step_def split: if_splits dest: push_item_names)

lemma class_item_step_names: "class_item_step neg items p c = Inr p' \<Longrightarrow> names p' = names p"
  by (auto simp add: class_item_step_def split: if_splits dest: push_item_names)

lemma class_escape_step_names: "class_escape_step neg items p c = Inr p' \<Longrightarrow> names p' = names p"
  by (auto simp add: class_escape_step_def split: if_splits)

lemma class_range_step_names: "class_range_step neg items lo p c = Inr p' \<Longrightarrow> names p' = names p"
  by (auto simp add: class_range_step_def split: if_splits citem.splits dest: push_item_names)

lemma pstep_distinct:
  assumes "distinct (map fst (names p))" and "pstep p c = Inr p'"
  shows "distinct (map fst (names p'))"
proof (cases "mode p")
  case Normal
  then show ?thesis using assms normal_step_names [of p c p'] by (simp add: pstep_def)
next
  case Escape
  then show ?thesis using assms escape_step_names [of p c p'] by (simp add: pstep_def)
next
  case GroupOpen
  have "names (open_group None p) = names p" by (simp add: open_group_def Let_def)
  then show ?thesis
    using GroupOpen assms normal_step_names [of "open_group None p" c p']
    by (auto simp add: pstep_def split: if_splits)
next
  case GroupQ
  then show ?thesis using assms by (auto simp add: pstep_def split: if_splits)
next
  case GroupP
  then show ?thesis using assms by (auto simp add: pstep_def split: if_splits)
next
  case (GroupName acc)
  then show ?thesis using assms
    by (auto simp add: pstep_def open_group_def Let_def split: if_splits)
next
  case ClassStart
  then show ?thesis using assms class_item_step_names [of False "[]" p c p']
    by (auto simp add: pstep_def split: if_splits)
next
  case (InClass neg items)
  then show ?thesis using assms class_item_step_names [of neg items p c p']
    by (simp add: pstep_def)
next
  case (ClassEscape neg items)
  then show ?thesis using assms class_escape_step_names [of neg items p c p']
    by (simp add: pstep_def)
next
  case (ClassAfter neg items it)
  then show ?thesis using assms class_item_step_names [of neg "items @ [it]" p c p']
    by (auto simp add: pstep_def split: if_splits)
next
  case (ClassRange neg items lo)
  then show ?thesis using assms class_range_step_names [of neg items lo p c p']
    by (simp add: pstep_def)
qed

lemma psteps_distinct:
  "distinct (map fst (names p)) \<Longrightarrow> psteps p s = Inr p' \<Longrightarrow> distinct (map fst (names p'))"
proof (induction s arbitrary: p)
  case Nil
  then show ?case by simp
next
  case (Cons c s)
  from Cons.prems(2) obtain q where q: "pstep p c = Inr q" and r: "psteps q s = Inr p'"
    by (auto split: sum.splits)
  show ?case using Cons.IH [OF pstep_distinct [OF Cons.prems(1) q] r] .
qed

lemma re_compile_distinct:
  "re_compile s = Inr p \<Longrightarrow> distinct (map fst (groupindex p))"
proof -
  assume a: "re_compile s = Inr p"
  let ?p0 = "\<lparr>frames = [Frame None [] []], mode = Normal, ngroups = 0, names = [],
               quantified = False\<rparr>"
  from a obtain q where q: "psteps ?p0 s = Inr q" and g: "groupindex p = names q"
    by (auto simp add: re_compile_def split: sum.splits pmode.splits list.splits)
  have "distinct (map fst (names ?p0))" by simp
  then have "distinct (map fst (names q))" using q by (rule psteps_distinct)
  then show ?thesis using g by simp
qed


lemma insert_style_content:
  assumes "m_lastgroup m = Some name"
    and "map_of (m_groupdict m) name = Some (Some content)"
    and "format_literal (pre @ name) = Some tag"
  shows "insert_style mk pre m =
           Inr (''['' @ tag @ '']''
                @ (if name = ''str'' \<and> mk content \<noteq> []
                   then replace_char (CHR ''['') (BSLASH # ''['') content
                   else content)
                @ ''[/'' @ tag @ '']'')"
proof (cases "name = ''str''")
  case False
  then show ?thesis
    using assms by (simp add: insert_style_def Let_def py_str_def style_format_def)
next
  case True
  have g: "map_of (m_groupdict m) ''str'' = Some (Some content)"
    using assms(2) True by simp
  have f: "format_literal (pre @ ''str'') = Some tag"
    using assms(3) True by simp
  have l: "m_lastgroup m = Some ''str''"
    using assms(1) True by simp
  show ?thesis
  proof (cases "mk content = []")
    case e: True
    then show ?thesis
      using True by (simp add: insert_style_def Let_def py_str_def style_format_def g f l)
  next
    case ne: False
    then show ?thesis
      using True by (simp add: insert_style_def Let_def py_str_def style_format_def g f l)
  qed
qed

lemma init_pattern:
  "RegexHighlighter_init sts pre = Inr h
     \<Longrightarrow> re_compile (combined_pattern sts) = Inr (pattern_of h) \<and> prefix h = pre"
  by (auto simp add: RegexHighlighter_init_def split: sum.splits)

text \<open>
  C9, as amended. Every token that a constructed highlighter finds in a text, at any
  place, has a content under the name of its style. A token of the style \<^verbatim>\<open>str\<close> is
  emitted with every \<^verbatim>\<open>[\<close> of its content escaped when \<^verbatim>\<open>RE_MARKUP\<close> finds at least one
  markup tag in the content, and with its content as it stands when \<^verbatim>\<open>RE_MARKUP\<close> finds
  none; a token of any other style is emitted with its content as it stands.
\<close>

theorem token_escaping:
  assumes "RegexHighlighter_init sts pre = Inr h"
    and "match_at (pattern_of h) s adv = Some (m, rest)"
    and "m_lastgroup m = Some name"
    and "format_literal (pre @ name) = Some tag"
  shows "\<exists>content.
           map_of (m_groupdict m) name = Some (Some content)
           \<and> insert_style mk (prefix h) m =
               Inr (''['' @ tag @ '']''
                    @ (if name = ''str'' \<and> mk content \<noteq> []
                       then replace_char (CHR ''['') (BSLASH # ''['') content
                       else content)
                    @ ''[/'' @ tag @ '']'')"
proof -
  have d: "distinct (map fst (groupindex (pattern_of h)))"
    using init_pattern [OF assms(1)] re_compile_distinct by blast
  obtain content where c: "map_of (m_groupdict m) name = Some (Some content)"
    using match_at_content [OF d assms(2) assms(3)] by blast
  have p: "prefix h = pre" using init_pattern [OF assms(1)] by simp
  show ?thesis
    using insert_style_content [OF assms(3) c assms(4), of mk] c p by blast
qed

lemma init_string:
  "RegexHighlighter_init string_styles ''code.'' = Inr string_highlighter"
proof -
  have "re_compile (combined_pattern string_styles) = Inr (pattern_of string_highlighter)"
    unfolding string_highlighter_def by code_simp
  then show ?thesis
    by (simp add: RegexHighlighter_init_def string_highlighter_def)
qed

lemma match_str:
  "match_at (pattern_of string_highlighter) (QUOTE # ''[b]a'' @ QUOTE # '' + a[0]'') False
     = Some (str_match, '' + a[0]'')"
  by code_simp

lemma match_idx:
  "match_at (pattern_of string_highlighter) ''a[0]'' False = Some (idx_match, [])"
  by code_simp

theorem token_escaping_witness:
  "RegexHighlighter_init string_styles ''code.'' = Inr string_highlighter
   \<and> match_at (pattern_of string_highlighter) (QUOTE # ''[b]a'' @ QUOTE # '' + a[0]'') False
       = Some (str_match, '' + a[0]'')
   \<and> m_lastgroup str_match = Some ''str''
   \<and> format_literal (''code.'' @ ''str'') = Some ''code.str''
   \<and> insert_style markup_tags (prefix string_highlighter) str_match
       = Inr (''[code.str]'' @ QUOTE # BSLASH # ''[b]a'' @ QUOTE # ''[/code.str]'')
   \<and> match_at (pattern_of string_highlighter) ''a[0]'' False = Some (idx_match, [])
   \<and> m_lastgroup idx_match = Some ''idx''
   \<and> format_literal (''code.'' @ ''idx'') = Some ''code.idx''
   \<and> insert_style markup_tags (prefix string_highlighter) idx_match
       = Inr ''[code.idx]a[0][/code.idx]''"
proof -
  have s1: "m_lastgroup str_match = Some ''str''" by (simp add: str_match_def)
  have s3: "format_literal (''code.'' @ ''str'') = Some ''code.str''" by simp
  have i1: "m_lastgroup idx_match = Some ''idx''" by (simp add: idx_match_def)
  have i3: "format_literal (''code.'' @ ''idx'') = Some ''code.idx''" by simp
  have t: "markup_tags (QUOTE # ''[b]a'' @ [QUOTE]) = [''b'']"
    by (simp add: markup_tags_def QUOTE_def)
  have r: "replace_char (CHR ''['') (BSLASH # ''['') (QUOTE # ''[b]a'' @ [QUOTE])
             = QUOTE # BSLASH # ''[b]a'' @ [QUOTE]"
    by (simp add: replace_char_def QUOTE_def)
  have sc: "map_of (m_groupdict str_match) ''str'' = Some (Some (QUOTE # ''[b]a'' @ [QUOTE]))"
    by (simp add: str_match_def)
  have ic: "map_of (m_groupdict idx_match) ''idx'' = Some (Some ''a[0]'')"
    by (simp add: idx_match_def)
  have a: "insert_style markup_tags (prefix string_highlighter) str_match
       = Inr (''[code.str]'' @ QUOTE # BSLASH # ''[b]a'' @ QUOTE # ''[/code.str]'')"
    using token_escaping [OF init_string match_str s1 s3, of markup_tags] sc t r by auto
  have b: "insert_style markup_tags (prefix string_highlighter) idx_match
       = Inr ''[code.idx]a[0][/code.idx]''"
    using token_escaping [OF init_string match_idx i1 i3, of markup_tags] ic by auto
  show ?thesis using init_string match_str match_idx s1 s3 i1 i3 a b by simp
qed

text \<open>
  C9 as stated escapes every \<^verbatim>\<open>[\<close> of a string token. The string literal \<^verbatim>\<open>'a[0'\<close> holds a
  bracket but no markup tag, and it is emitted unescaped.
\<close>

theorem escaping_counterexample:
  "highlight_once string_styles ''code.'' (''x = '' @ QUOTE # ''a[0'' @ [QUOTE])
     = Inr (''x = [code.str]'' @ QUOTE # ''a[0'' @ QUOTE # ''[/code.str]'')
   \<and> claimed_content ''str'' (QUOTE # ''a[0'' @ [QUOTE]) = QUOTE # ''a'' @ BSLASH # ''[0'' @ [QUOTE]"
  by code_simp

lemma escaped_example:
  "highlight_once string_styles ''code.'' (''x = '' @ QUOTE # ''[b]a'' @ QUOTE # '' + a[0]'')
     = Inr (''x = [code.str]'' @ QUOTE # BSLASH # ''[b]a'' @ QUOTE # ''[/code.str] + [code.idx]a[0][/code.idx]'')"
  by code_simp

lemma replace_char_escapes:
  "replace_char (CHR ''['') (BSLASH # ''['') (xs @ CHR ''['' # ys)
     = replace_char (CHR ''['') (BSLASH # ''['') xs @ BSLASH # CHR ''[''
         # replace_char (CHR ''['') (BSLASH # ''['') ys"
  by (simp add: replace_char_def)

end
